theory Spec2Isabelle
  imports Main "HOL-Library.Multiset"
begin

section \<open>Semi-structured values and data frames\<close>

text \<open>
  The program in \<^verbatim>\<open>generate_relational_tables_from_nested_JSON.py\<close> drives a Snowpark
  session.  The values it handles are the engine's semi-structured values; a data frame is
  an ordered list of column names over a list of rows.  A frame holds its column names as it
  reports them (\<^verbatim>\<open>df.columns\<close>), and the names the program builds from reported names are
  compared with them as strings; the names the program builds from the keys found in the data
  go through the client's normalisation (see \<open>quote_name\<close> below).
\<close>

datatype val =
    VNull
  | VBool bool
  | VNum int
  | VStr string
  | VArr "val list"
  | VObj "(string \<times> val) list"

type_synonym row = "val list"

record dataframe =
  columns :: "string list"
  rows :: "row list"

text \<open>The value a row holds under a column name; a name that is not a column reads as NULL.\<close>

definition cell :: "string list \<Rightarrow> row \<Rightarrow> string \<Rightarrow> val" where
  "cell cs r c = (case map_of (zip cs r) c of Some v \<Rightarrow> v | None \<Rightarrow> VNull)"

text \<open>
  What the run cannot fix: the digest \<^verbatim>\<open>sha2(cast(x as string), 256)\<close>, the order in
  which Python iterates a set of strings, and the order in which the engine returns the rows
  of a \<^verbatim>\<open>distinct()\<close>.  They are parameters of the model.
\<close>

record engine =
  sha2_string :: "val \<Rightarrow> val"
  set_order :: "string list \<Rightarrow> string list"
  row_order :: "row list \<Rightarrow> row list"

definition engine_ok :: "engine \<Rightarrow> bool" where
  "engine_ok eng =
     ((\<forall>xs. mset (set_order eng xs) = mset xs) \<and> (\<forall>rs. mset (row_order eng rs) = mset rs))"

subsection \<open>Column expressions\<close>

type_synonym colexpr = "(string \<Rightarrow> val) \<Rightarrow> val"

definition col :: "string \<Rightarrow> colexpr" where
  "col name look = look name"

definition cast_variant :: "colexpr \<Rightarrow> colexpr" where
  "cast_variant e look = e look"

fun typeof_val :: "val \<Rightarrow> val" where
  "typeof_val VNull = VNull"
| "typeof_val (VBool b) = VStr ''BOOLEAN''"
| "typeof_val (VNum n) = VStr ''INTEGER''"
| "typeof_val (VStr s) = VStr ''VARCHAR''"
| "typeof_val (VArr xs) = VStr ''ARRAY''"
| "typeof_val (VObj kvs) = VStr ''OBJECT''"

definition typeof :: "colexpr \<Rightarrow> colexpr" where
  "typeof e look = typeof_val (e look)"

definition sha2_cast_string :: "engine \<Rightarrow> colexpr \<Rightarrow> colexpr" where
  "sha2_cast_string eng e look = sha2_string eng (e look)"

fun get_item :: "val \<Rightarrow> string \<Rightarrow> val" where
  "get_item (VObj kvs) key = (case map_of kvs key of Some v \<Rightarrow> v | None \<Rightarrow> VNull)"
| "get_item v key = VNull"

definition col_getitem :: "colexpr \<Rightarrow> string \<Rightarrow> colexpr" where
  "col_getitem e key look = get_item (e look) key"

subsection \<open>Data frame operations\<close>

definition df_select :: "(string \<times> colexpr) list \<Rightarrow> dataframe \<Rightarrow> dataframe" where
  "df_select es df =
     \<lparr>columns = map fst es,
      rows = map (\<lambda>r. map (\<lambda>e. snd e (cell (columns df) r)) es) (rows df)\<rparr>"

definition df_select_names :: "string list \<Rightarrow> dataframe \<Rightarrow> dataframe" where
  "df_select_names ns df = df_select (map (\<lambda>n. (n, col n)) ns) df"

definition df_distinct :: "engine \<Rightarrow> dataframe \<Rightarrow> dataframe" where
  "df_distinct eng df = df\<lparr>rows := row_order eng (remdups (rows df))\<rparr>"

definition df_limit :: "nat \<Rightarrow> dataframe \<Rightarrow> dataframe" where
  "df_limit n df = df\<lparr>rows := take n (rows df)\<rparr>"

definition df_filter :: "((string \<Rightarrow> val) \<Rightarrow> bool) \<Rightarrow> dataframe \<Rightarrow> dataframe" where
  "df_filter p df = df\<lparr>rows := filter (\<lambda>r. p (cell (columns df) r)) (rows df)\<rparr>"

definition df_collect :: "dataframe \<Rightarrow> (string \<Rightarrow> val) list" where
  "df_collect df = map (\<lambda>r. cell (columns df) r) (rows df)"

definition df_count :: "dataframe \<Rightarrow> nat" where
  "df_count df = length (rows df)"

text \<open>
  The projection that \<^verbatim>\<open>with_columns\<close> ends with (\<^verbatim>\<open>select([*old_cols, *new_cols])\<close>): the
  new columns are computed from the frame as it is; columns that already carry one of the new
  names are removed and the new columns come last.
\<close>

definition df_replace_columns :: "string list \<Rightarrow> colexpr list \<Rightarrow> dataframe \<Rightarrow> dataframe" where
  "df_replace_columns names vals df =
     df_select (map (\<lambda>n. (n, col n)) (filter (\<lambda>c. c \<notin> set names) (columns df)) @ zip names vals) df"

text \<open>\<^verbatim>\<open>with_column(name, v)\<close> for the hash column, whose name is kept as the program builds
  it from a reported column name.\<close>

definition df_with_column :: "string \<Rightarrow> colexpr \<Rightarrow> dataframe \<Rightarrow> dataframe" where
  "df_with_column name v df = df_replace_columns [name] [v] df"

definition df_drop :: "string list \<Rightarrow> dataframe \<Rightarrow> dataframe" where
  "df_drop names df = df_select_names (filter (\<lambda>c. c \<notin> set names) (columns df)) df"

definition df_with_column_renamed :: "string \<Rightarrow> string \<Rightarrow> dataframe \<Rightarrow> dataframe" where
  "df_with_column_renamed old new df =
     df\<lparr>columns := map (\<lambda>c. if c = old then new else c) (columns df)\<rparr>"

subsection \<open>The engine's FLATTEN table function\<close>

datatype flatten_mode = MODE_OBJECT | MODE_ARRAY | MODE_BOTH

definition FLATTEN_COLS :: "string list" where
  "FLATTEN_COLS = [''SEQ'', ''KEY'', ''PATH'', ''INDEX'', ''VALUE'', ''THIS'']"

function show_nat :: "nat \<Rightarrow> string" where
  "show_nat n =
     (if n < 10 then [char_of (48 + n)] else show_nat (n div 10) @ [char_of (48 + n mod 10)])"
  by pat_completeness auto
termination
  by (relation "measure (\<lambda>n. n)") auto

declare show_nat.simps [simp del]

definition flatten_array_rows :: "nat \<Rightarrow> val \<Rightarrow> val list \<Rightarrow> row list" where
  "flatten_array_rows seq this xs =
     map (\<lambda>ix. [VNum (int seq), VNull, VStr (''['' @ show_nat (fst ix) @ '']''),
                 VNum (int (fst ix)), snd ix, this])
         (zip [0..<length xs] xs)"

definition flatten_object_rows :: "nat \<Rightarrow> val \<Rightarrow> (string \<times> val) list \<Rightarrow> row list" where
  "flatten_object_rows seq this kvs =
     map (\<lambda>kv. [VNum (int seq), VStr (fst kv), VStr (fst kv), VNull, snd kv, this]) kvs"

text \<open>
  The rows FLATTEN produces for one input value.  A value the mode does not expand, an empty
  array and an empty object expand to no row; with \<^verbatim>\<open>outer => TRUE\<close> exactly one row is
  produced for them, with NULL in KEY, INDEX and VALUE.
\<close>

fun flatten_expand :: "flatten_mode \<Rightarrow> nat \<Rightarrow> val \<Rightarrow> row list" where
  "flatten_expand MODE_ARRAY seq (VArr xs) = flatten_array_rows seq (VArr xs) xs"
| "flatten_expand MODE_BOTH seq (VArr xs) = flatten_array_rows seq (VArr xs) xs"
| "flatten_expand MODE_OBJECT seq (VObj kvs) = flatten_object_rows seq (VObj kvs) kvs"
| "flatten_expand MODE_BOTH seq (VObj kvs) = flatten_object_rows seq (VObj kvs) kvs"
| "flatten_expand m seq v = []"

definition flatten_value :: "flatten_mode \<Rightarrow> bool \<Rightarrow> nat \<Rightarrow> val \<Rightarrow> row list" where
  "flatten_value m outer seq v =
     (if flatten_expand m seq v = [] \<and> outer
      then [[VNum (int seq), VNull, VNull, VNull, VNull, v]]
      else flatten_expand m seq v)"

text \<open>\<^verbatim>\<open>join_table_function('flatten', input=..., mode=..., outer=...)\<close>: every row of the
  frame, followed by each row FLATTEN produces for its input.\<close>

definition df_join_flatten :: "colexpr \<Rightarrow> flatten_mode \<Rightarrow> bool \<Rightarrow> dataframe \<Rightarrow> dataframe" where
  "df_join_flatten input m outer df =
     \<lparr>columns = columns df @ FLATTEN_COLS,
      rows = concat (map (\<lambda>ir. map (\<lambda>out. map (cell (columns df) (snd ir)) (columns df) @ out)
                                    (flatten_value m outer (Suc (fst ir))
                                        (input (cell (columns df) (snd ir)))))
                         (zip [0..<length (rows df)] (rows df)))\<rparr>"


section \<open>Python helpers\<close>

text \<open>\<^verbatim>\<open>sub in s\<close> on strings.\<close>

fun str_contains :: "string \<Rightarrow> string \<Rightarrow> bool" where
  "str_contains sub [] = (sub = [])"
| "str_contains sub (c # cs) = (take (length sub) (c # cs) = sub \<or> str_contains sub cs)"

text \<open>\<^verbatim>\<open>s.replace(old, new)\<close>: the occurrences of \<open>old\<close> are replaced from the left, without
  overlap.\<close>

function str_replace :: "string \<Rightarrow> string \<Rightarrow> string \<Rightarrow> string" where
  "str_replace old new [] = (if old = [] then new else [])"
| "str_replace old new (c # cs) =
     (if old = [] then new @ c # str_replace old new cs
      else if take (length old) (c # cs) = old
           then new @ str_replace old new (drop (length old) (c # cs))
           else c # str_replace old new cs)"
  by pat_completeness auto
termination
  by (relation "measure (\<lambda>(old, new, s). length s)") auto

text \<open>\<^verbatim>\<open>d[k] = v\<close> on a dictionary, which keeps the order in which keys were first set.\<close>

fun dict_set :: "'k \<Rightarrow> 'v \<Rightarrow> ('k \<times> 'v) list \<Rightarrow> ('k \<times> 'v) list" where
  "dict_set k v [] = [(k, v)]"
| "dict_set k v (kv # kvs) = (if fst kv = k then (k, v) # kvs else kv # dict_set k v kvs)"

section \<open>The program\<close>

datatype error =
    TypeError string
  | ValueError string
  | SnowparkSQLException string
  | SnowparkClientException string

text \<open>The messages the program hands to its logger, in the order of the calls.\<close>

datatype event =
    LogCallStart int nat "string set"
  | LogTerminated int
  | LogCurrentField string
  | LogDtype string val
  | LogFlattening string
  | LogFlattened string nat
  | LogSubfields string nat "string list"
  | LogExpanded
  | LogEndOfPath string
  | LogProcessNewDf string
  | LogResult string

text \<open>
  The state the closures share: the set \<^verbatim>\<open>processed_fields\<close> of one handler call, the
  module's \<^verbatim>\<open>globals()\<close> (the entries that hold data frames) and the log.
\<close>

record state =
  processed_fields :: "string set"
  globals :: "(string \<times> dataframe) list"
  log :: "event list"

definition add_log :: "event list \<Rightarrow> state \<Rightarrow> state" where
  "add_log evs st = st\<lparr>log := log st @ evs\<rparr>"

definition DROPPED_COLS :: "string list" where
  "DROPPED_COLS = [''SEQ'', ''KEY'', ''PATH'', ''INDEX'', ''THIS'']"

text \<open>
  Modelled from the spec: the decorator \<^verbatim>\<open>Logger.log\<close> of the project's \<^verbatim>\<open>logger\<close>
  module is not part of the sources; the spec names logging an external collaborator, so the
  decorated functions are modelled as the functions themselves.
\<close>

definition flatten_array :: "engine \<Rightarrow> dataframe \<Rightarrow> string \<Rightarrow> dataframe \<times> event list" where
  "flatten_array eng df array_field =
     (let hash_field = array_field @ ''_SHA256'';
          unique_arr_instances = df_distinct eng (df_select_names [hash_field, array_field] df);
          flatten_result =
            df_with_column_renamed ''VALUE'' array_field
              (df_drop (DROPPED_COLS @ [array_field])
                 (df_join_flatten (col array_field) MODE_ARRAY True unique_arr_instances))
      in (flatten_result,
          [LogFlattening array_field, LogFlattened array_field (df_count flatten_result)]))"

text \<open>
  The names given to \<^verbatim>\<open>with_columns\<close> go through the client's \<^verbatim>\<open>quote_name\<close>: a name
  already in double quotes is kept, and refused when a double quote inside it is not doubled;
  a name that reads as an unquoted identifier (letters, digits, \<open>_\<close> and \<open>$\<close>, not starting with
  a digit or \<open>$\<close>) is upper-cased; any other name is taken as written, its double quotes
  doubled.  The frame reports a quoted name without its quotes when what is inside is an
  upper-case identifier or \<open>$\<close> followed by digits.
\<close>

definition ident_start :: "char \<Rightarrow> bool" where
  "ident_start c = (c = CHR ''_'' \<or> c \<in> set ''ABCDEFGHIJKLMNOPQRSTUVWXYZ''
                     \<or> c \<in> set ''abcdefghijklmnopqrstuvwxyz'')"

definition ident_char :: "char \<Rightarrow> bool" where
  "ident_char c = (ident_start c \<or> c \<in> set ''0123456789'' \<or> c = CHR ''$'')"

definition unquoted_identifier :: "string \<Rightarrow> bool" where
  "unquoted_identifier s = (s \<noteq> [] \<and> ident_start (hd s) \<and> list_all ident_char s)"

definition upper_char :: "char \<Rightarrow> char" where
  "upper_char c =
     (case map_of (zip ''abcdefghijklmnopqrstuvwxyz'' ''ABCDEFGHIJKLMNOPQRSTUVWXYZ'') c of
        Some u \<Rightarrow> u
      | None \<Rightarrow> c)"

definition already_quoted :: "string \<Rightarrow> bool" where
  "already_quoted s = (3 \<le> length s \<and> hd s = CHR 0x22 \<and> last s = CHR 0x22)"

definition validate_quoted_name :: "string \<Rightarrow> error + string" where
  "validate_quoted_name name =
     (if CHR 0x22 \<in> set (str_replace [CHR 0x22, CHR 0x22] [] (butlast (tl name)))
      then Inl (SnowparkClientException name)
      else Inr name)"

definition escape_quotes :: "string \<Rightarrow> string" where
  "escape_quotes s = str_replace [CHR 0x22] [CHR 0x22, CHR 0x22] s"

definition quote_name :: "string \<Rightarrow> error + string" where
  "quote_name name =
     (if already_quoted name then validate_quoted_name name
      else if unquoted_identifier name
      then Inr ([CHR 0x22] @ escape_quotes (map upper_char name) @ [CHR 0x22])
      else Inr ([CHR 0x22] @ escape_quotes name @ [CHR 0x22]))"

fun quote_names :: "string list \<Rightarrow> error + string list" where
  "quote_names [] = Inr []"
| "quote_names (n # ns) =
     (case quote_name n of
        Inl e \<Rightarrow> Inl e
      | Inr q \<Rightarrow> (case quote_names ns of Inl e \<Rightarrow> Inl e | Inr qs \<Rightarrow> Inr (q # qs)))"

definition upper_identifier :: "string \<Rightarrow> bool" where
  "upper_identifier s =
     (s \<noteq> [] \<and> hd s \<in> set ''_ABCDEFGHIJKLMNOPQRSTUVWXYZ''
      \<and> list_all (\<lambda>c. c \<in> set ''_ABCDEFGHIJKLMNOPQRSTUVWXYZ0123456789$'') s)"

definition dollar_digits :: "string \<Rightarrow> bool" where
  "dollar_digits s =
     (2 \<le> length s \<and> hd s = CHR ''$'' \<and> list_all (\<lambda>c. c \<in> set ''0123456789'') (tl s))"

definition strip_unnecessary_quotes :: "string \<Rightarrow> string" where
  "strip_unnecessary_quotes q =
     (if upper_identifier (butlast (tl q)) \<or> dollar_digits (butlast (tl q))
      then butlast (tl q)
      else q)"

text \<open>
  \<^verbatim>\<open>with_columns(col_names, values)\<close>: the names are normalised, two names that are the same
  after normalisation are refused, and the columns that carry one of the new names are
  replaced.
\<close>

definition df_with_columns ::
  "string list \<Rightarrow> colexpr list \<Rightarrow> dataframe \<Rightarrow> error + dataframe" where
  "df_with_columns col_names vals df =
     (case quote_names col_names of
        Inl e \<Rightarrow> Inl e
      | Inr qualified_names \<Rightarrow>
          if \<not> distinct qualified_names
          then Inl (ValueError
                 ''The same column name is used multiple times in the col_names parameter.'')
          else if length col_names \<noteq> length vals
          then Inl (ValueError
                 (''The size of column names ('' @ show_nat (length col_names)
                  @ '') is not equal to the size of columns ('' @ show_nat (length vals) @ '')''))
          else Inr (df_replace_columns (map strip_unnecessary_quotes qualified_names) vals df))"

text \<open>KEY is a VARCHAR column of FLATTEN: its values other than NULL are strings.\<close>

fun key_str :: "val \<Rightarrow> string" where
  "key_str (VStr s) = s"
| "key_str v = []"

definition subfield_keys :: "engine \<Rightarrow> dataframe \<Rightarrow> string \<Rightarrow> string list" where
  "subfield_keys eng df obj_field =
     map (\<lambda>key. key_str (key ''KEY''))
       (df_collect
          (df_distinct eng
             (df_filter (\<lambda>look. look ''KEY'' \<noteq> VNull)
                (df_select_names [''KEY'']
                   (df_join_flatten (col obj_field) MODE_OBJECT True
                      (df_distinct eng (df_select_names [obj_field] df)))))))"

definition expand_object_subfields ::
  "engine \<Rightarrow> dataframe \<Rightarrow> string \<Rightarrow> (error + dataframe) \<times> event list" where
  "expand_object_subfields eng df obj_field =
     (let keys = subfield_keys eng df obj_field;
          evs = [LogSubfields obj_field (length keys) keys];
          pairs = map (\<lambda>key. (obj_field @ ''__'' @ key, col_getitem (col obj_field) key)) keys
      in if pairs = []
         then (Inl (ValueError ''not enough values to unpack (expected 2, got 0)''), evs)
         else (case df_with_columns (map fst pairs) (map snd pairs) df of
                 Inl e \<Rightarrow> (Inl e, evs)
               | Inr df' \<Rightarrow> (Inr df', evs @ [LogExpanded])))"

definition detect_dtype_from_first :: nat where
  "detect_dtype_from_first = 50"

definition is_bookkeeping :: "string \<Rightarrow> bool" where
  "is_bookkeeping c = list_ex (\<lambda>x. str_contains x c) [''SHA256'', ''INGESTION_CTRL'']"

definition cur_unprocessed_fields :: "dataframe \<Rightarrow> string set \<Rightarrow> string list" where
  "cur_unprocessed_fields df processed =
     remdups (filter (\<lambda>c. \<not> is_bookkeeping c \<and> c \<notin> processed) (columns df))"

definition isin :: "val \<Rightarrow> val list \<Rightarrow> bool" where
  "isin v vs = (v \<in> set vs)"

definition to_unpack_cur_field_dtypes :: "engine \<Rightarrow> dataframe \<Rightarrow> string \<Rightarrow> (string \<Rightarrow> val) list" where
  "to_unpack_cur_field_dtypes eng df cur_field =
     (let target = df_distinct eng (df_select [(cur_field, cast_variant (col cur_field))] df)
      in df_collect
           (df_filter (\<lambda>look. isin (look ''TYPEOF'') [VStr ''ARRAY'', VStr ''OBJECT''])
              (df_distinct eng
                 (df_select [(''TYPEOF'', typeof (col cur_field))]
                    (df_limit detect_dtype_from_first target)))))"

text \<open>One round of the loop over the unprocessed fields (lines 126 to 160).  The exception
  message is the literal of the source.\<close>

definition process_field ::
  "engine \<Rightarrow> string \<Rightarrow> dataframe \<Rightarrow> (string \<times> dataframe) list \<Rightarrow> state
     \<Rightarrow> error option \<times> dataframe \<times> (string \<times> dataframe) list \<times> state" where
  "process_field eng cur_field df new_dfs st =
     (let st1 = add_log [LogCurrentField cur_field] st;
          to_unpack = to_unpack_cur_field_dtypes eng df cur_field;
          distinct_to_unpack_type_count = length to_unpack
      in if distinct_to_unpack_type_count > 1
         then (Some (TypeError ''\"%s\" does not have a unique dtype of either ARRAY or OBJECT.''),
               df, new_dfs, st1)
         else if distinct_to_unpack_type_count = 1
         then (let dtype = (to_unpack ! 0) ''TYPEOF'';
                   st2 = add_log [LogDtype cur_field dtype] st1
               in if dtype = VStr ''ARRAY''
                  then (let hash_field = cur_field @ ''_SHA256'';
                            df1 = df_with_column hash_field (sha2_cast_string eng (col cur_field)) df;
                            res = flatten_array eng df1 cur_field
                        in (None, df_drop [cur_field] df1, dict_set cur_field (fst res) new_dfs,
                            add_log (snd res) st2))
                  else if dtype = VStr ''OBJECT''
                  then (case expand_object_subfields eng df cur_field of
                          (Inl e, evs) \<Rightarrow> (Some e, df, new_dfs, add_log evs st2)
                        | (Inr df1, evs) \<Rightarrow>
                            (None, df_drop [cur_field] df1, new_dfs,
                             add_log (evs @ [LogEndOfPath cur_field])
                               (st2\<lparr>processed_fields := insert cur_field (processed_fields st2)\<rparr>)))
                  else (None, df_drop [cur_field] df, new_dfs, st2))
         else (None, df, new_dfs,
               add_log [LogEndOfPath cur_field]
                 (st1\<lparr>processed_fields := insert cur_field (processed_fields st1)\<rparr>)))"

fun process_fields ::
  "engine \<Rightarrow> string list \<Rightarrow> dataframe \<Rightarrow> (string \<times> dataframe) list \<Rightarrow> state
     \<Rightarrow> error option \<times> dataframe \<times> (string \<times> dataframe) list \<times> state" where
  "process_fields eng [] df new_dfs st = (None, df, new_dfs, st)"
| "process_fields eng (cur_field # rest) df new_dfs st =
     (case process_field eng cur_field df new_dfs st of
        (Some e, res) \<Rightarrow> (Some e, res)
      | (None, df', new_dfs', st') \<Rightarrow> process_fields eng rest df' new_dfs' st')"

record config =
  max_recursive_calls :: int
  output_table_prefix :: string
  output_table_suffix :: string

definition result_key :: "config \<Rightarrow> string \<Rightarrow> string" where
  "result_key cfg parent_path =
     ''INTERNAL_RESULT_'' @ output_table_prefix cfg @ parent_path @ output_table_suffix cfg"

text \<open>The loop over the new data frames (lines 168 to 173); \<open>call\<close> is the recursive call.\<close>

fun for_each_new_df ::
  "(string \<Rightarrow> dataframe \<Rightarrow> state \<Rightarrow> (error option \<times> state) option)
     \<Rightarrow> (string \<times> dataframe) list \<Rightarrow> state \<Rightarrow> (error option \<times> state) option" where
  "for_each_new_df call [] st = Some (None, st)"
| "for_each_new_df call (item # items) st =
     (case call (fst item) (snd item) (add_log [LogProcessNewDf (fst item)] st) of
        None \<Rightarrow> None
      | Some (Some e, st') \<Rightarrow> Some (Some e, st')
      | Some (None, st') \<Rightarrow> for_each_new_df call items st')"

text \<open>
  The recursive function.  The first argument bounds the depth of the nesting of calls: the
  result \<open>None\<close> says that the bound was reached, \<open>Some (Some e, st)\<close> that the exception \<open>e\<close>
  was raised in state \<open>st\<close>, \<open>Some (None, st)\<close> that the call returned.
\<close>

fun model_nested_JSON_objects ::
  "nat \<Rightarrow> engine \<Rightarrow> config \<Rightarrow> dataframe \<Rightarrow> string \<Rightarrow> int \<Rightarrow> state
     \<Rightarrow> (error option \<times> state) option" where
  "model_nested_JSON_objects 0 eng cfg df parent_path counter st = None"
| "model_nested_JSON_objects (Suc fuel) eng cfg df parent_path counter st =
     (let counter1 = counter + 1;
          st1 = add_log [LogCallStart counter1 (df_count df) (processed_fields st)] st;
          cur_unprocessed = cur_unprocessed_fields df (processed_fields st1)
      in if length cur_unprocessed = 0 \<or> counter1 = max_recursive_calls cfg
         then Some (None, add_log [LogTerminated counter1] st1)
         else (case process_fields eng (set_order eng cur_unprocessed) df [] st1 of
                 (Some e, df', new_dfs, st2) \<Rightarrow> Some (Some e, st2)
               | (None, df', new_dfs, st2) \<Rightarrow>
                   (case model_nested_JSON_objects fuel eng cfg df' parent_path counter1
                           (st2\<lparr>globals := dict_set (result_key cfg parent_path) df' (globals st2)\<rparr>) of
                      None \<Rightarrow> None
                    | Some (Some e, st3) \<Rightarrow> Some (Some e, st3)
                    | Some (None, st3) \<Rightarrow>
                        for_each_new_df
                          (\<lambda>name new_df. model_nested_JSON_objects fuel eng cfg new_df name counter1)
                          new_dfs st3)))"

text \<open>The dictionary comprehension of line 177.\<close>

definition collect_results :: "(string \<times> dataframe) list \<Rightarrow> (string \<times> dataframe) list" where
  "collect_results g =
     fold (\<lambda>kv acc. dict_set (str_replace ''INTERNAL_RESULT_'' [] (fst kv)) (snd kv) acc)
       (filter (\<lambda>kv. str_contains ''INTERNAL_RESULT'' (fst kv)) g) []"

text \<open>\<^verbatim>\<open>save_as_table(name, mode='overwrite')\<close> on the tables of the session.\<close>

definition save_as_table :: "string \<Rightarrow> dataframe \<Rightarrow> (string \<times> dataframe) list \<Rightarrow> (string \<times> dataframe) list" where
  "save_as_table name df tabs = dict_set name df tabs"

definition save_results ::
  "string \<Rightarrow> (string \<times> dataframe) list \<Rightarrow> (string \<times> dataframe) list \<Rightarrow> (string \<times> dataframe) list" where
  "save_results output_schema results tabs =
     fold (\<lambda>item t. save_as_table (output_schema @ ''.'' @ fst item) (snd item) t) results tabs"

text \<open>
  The handler.  \<open>tabs\<close> are the tables of the session and \<open>g\<close> the data-frame entries of
  \<^verbatim>\<open>globals()\<close> when the handler is called; a relation the session does not hold makes the
  first action on it fail.  The result is the returned dictionary or the exception, with the
  tables of the session and the state left behind.
\<close>

definition snowpark_main_handler ::
  "nat \<Rightarrow> engine \<Rightarrow> (string \<times> dataframe) list \<Rightarrow> (string \<times> dataframe) list
     \<Rightarrow> string \<Rightarrow> string \<Rightarrow> int \<Rightarrow> string \<Rightarrow> string
     \<Rightarrow> ((error + (string \<times> dataframe) list) \<times> (string \<times> dataframe) list \<times> state) option" where
  "snowpark_main_handler fuel eng tabs g input_relation output_schema max_calls prefix suffix =
     (let st0 = \<lparr>processed_fields = {}, globals = g, log = []\<rparr>;
          cfg = \<lparr>max_recursive_calls = max_calls, output_table_prefix = prefix,
                 output_table_suffix = suffix\<rparr>
      in case map_of tabs input_relation of
           None \<Rightarrow> Some (Inl (SnowparkSQLException input_relation), tabs, st0)
         | Some df \<Rightarrow>
             (case model_nested_JSON_objects fuel eng cfg df ''ENTRY'' 0 st0 of
                None \<Rightarrow> None
              | Some (Some e, st1) \<Rightarrow> Some (Inl e, tabs, st1)
              | Some (None, st1) \<Rightarrow>
                  (let results = collect_results (globals st1)
                   in Some (Inr results, save_results output_schema results tabs,
                            add_log (map (\<lambda>item. LogResult (fst item)) results) st1))))"


section \<open>Notions used in the statements\<close>

text \<open>
  The values the type detection looks at: the first \<open>detect_dtype_from_first\<close> distinct values
  of the field (lines 129 and 132).
\<close>

definition sampled_values :: "engine \<Rightarrow> dataframe \<Rightarrow> string \<Rightarrow> val list" where
  "sampled_values eng df cur_field =
     map (\<lambda>look. look cur_field)
       (df_collect (df_limit detect_dtype_from_first
          (df_distinct eng (df_select [(cur_field, cast_variant (col cur_field))] df))))"

fun is_array :: "val \<Rightarrow> bool" where
  "is_array (VArr xs) = True"
| "is_array v = False"

fun is_object :: "val \<Rightarrow> bool" where
  "is_object (VObj kvs) = True"
| "is_object v = False"

text \<open>A frame in which no column holds an array or an object.\<close>

definition flat_table :: "dataframe \<Rightarrow> bool" where
  "flat_table df =
     list_all (\<lambda>r. list_all (\<lambda>c. \<not> is_array (cell (columns df) r c) \<and>
                                    \<not> is_object (cell (columns df) r c)) (columns df))
       (rows df)"

text \<open>A frame with rows in which one field holds arrays of scalars and no other column
  holds an array or an object.\<close>

fun is_scalar :: "val \<Rightarrow> bool" where
  "is_scalar (VArr xs) = False"
| "is_scalar (VObj kvs) = False"
| "is_scalar v = True"

fun array_of_scalars :: "val \<Rightarrow> bool" where
  "array_of_scalars (VArr xs) = list_all is_scalar xs"
| "array_of_scalars v = False"

definition single_array_field :: "dataframe \<Rightarrow> string \<Rightarrow> bool" where
  "single_array_field df f =
     (rows df \<noteq> [] \<and>
      list_all (\<lambda>r. array_of_scalars (cell (columns df) r f) \<and>
                     list_all (\<lambda>c. if c = f then True else is_scalar (cell (columns df) r c))
                       (columns df))
        (rows df))"

text \<open>
  The fields a log marks as processed (the message of lines 155 and 160 goes with every
  \<^verbatim>\<open>processed_fields.add\<close>), and the check that a log never shows a field under type
  detection, flattening or expansion once the field is in the set \<open>P\<close> or marked.
\<close>

fun marked :: "event list \<Rightarrow> string set" where
  "marked [] = {}"
| "marked (LogEndOfPath f # es) = insert f (marked es)"
| "marked (e # es) = marked es"

fun log_respects :: "string set \<Rightarrow> event list \<Rightarrow> bool" where
  "log_respects P [] = True"
| "log_respects P (LogEndOfPath f # es) = log_respects (insert f P) es"
| "log_respects P (LogCurrentField f # es) = (f \<notin> P \<and> log_respects P es)"
| "log_respects P (LogDtype f d # es) = (f \<notin> P \<and> log_respects P es)"
| "log_respects P (LogFlattening f # es) = (f \<notin> P \<and> log_respects P es)"
| "log_respects P (LogFlattened f n # es) = (f \<notin> P \<and> log_respects P es)"
| "log_respects P (LogSubfields f n ks # es) = (f \<notin> P \<and> log_respects P es)"
| "log_respects P (e # es) = log_respects P es"

definition run_extends :: "state \<Rightarrow> state \<Rightarrow> bool" where
  "run_extends st st' =
     (\<exists>evs. log st' = log st @ evs \<and> log_respects (processed_fields st) evs \<and>
            processed_fields st' = processed_fields st \<union> marked evs)"

text \<open>
  The depth to which a value is nested, the depth of a column (one more than the deepest value
  it holds) and the depth of the deepest unprocessed field of a frame.
\<close>

fun depth :: "val \<Rightarrow> nat" where
  "depth (VArr xs) = Suc (Max (set (0 # map depth xs)))"
| "depth (VObj kvs) = Suc (Max (set (0 # map (\<lambda>kv. depth (snd kv)) kvs)))"
| "depth v = 0"

definition col_depth :: "dataframe \<Rightarrow> string \<Rightarrow> nat" where
  "col_depth df c = Suc (Max (set (0 # map (\<lambda>look. depth (look c)) (df_collect df))))"

definition pending_depth :: "dataframe \<Rightarrow> string set \<Rightarrow> nat" where
  "pending_depth df P = Max (set (0 # map (col_depth df) (cur_unprocessed_fields df P)))"

section \<open>Example data\<close>

definition demo_engine :: engine where
  "demo_engine =
     \<lparr>sha2_string = (\<lambda>v. if v = VNull then VNull else VStr ''digest''),
      set_order = (\<lambda>xs. xs),
      row_order = (\<lambda>rs. rs)\<rparr>"

definition demo_orders :: dataframe where
  "demo_orders =
     \<lparr>columns = [''ID'', ''ITEMS''],
      rows = [[VNum 1, VArr [VNum 10, VNum 20]],
              [VNum 2, VArr [VNum 10, VNum 20]],
              [VNum 3, VArr []]]\<rparr>"

definition demo_same_arrays :: dataframe where
  "demo_same_arrays =
     \<lparr>columns = [''ID'', ''ITEMS''],
      rows = [[VNum 1, VArr [VNum 10, VNum 20]],
              [VNum 2, VArr [VNum 10, VNum 20]],
              [VNum 3, VArr [VNum 10, VNum 20]]]\<rparr>"

definition demo_mixed :: dataframe where
  "demo_mixed =
     \<lparr>columns = [''ID'', ''PAYLOAD''],
      rows = [[VNum 1, VArr [VNum 10]], [VNum 2, VObj [(''a'', VNum 1)]]]\<rparr>"

definition demo_empty_objects :: dataframe where
  "demo_empty_objects =
     \<lparr>columns = [''ID'', ''PAYLOAD''],
      rows = [[VNum 1, VObj []], [VNum 2, VObj []]]\<rparr>"

definition demo_customers :: dataframe where
  "demo_customers =
     \<lparr>columns = [''ID'', ''ADDR''],
      rows = [[VNum 1, VObj [(''city'', VStr ''Oslo''), (''zip'', VNum 150)]],
              [VNum 2, VObj [(''zip'', VNum 184)]]]\<rparr>"

definition demo_flat :: dataframe where
  "demo_flat =
     \<lparr>columns = [''ID'', ''NAME'', ''LOAD_SHA256''],
      rows = [[VNum 1, VStr ''ann'', VStr ''ab12''], [VNum 2, VNull, VStr ''cd34'']]\<rparr>"

definition demo_shared :: dataframe where
  "demo_shared =
     \<lparr>columns = [''ITEMS__TAGS'', ''ITEMS''],
      rows = [[VStr ''red'', VArr [VObj [(''TAGS'', VArr [VNum 1, VNum 2])]]]]\<rparr>"

section \<open>Statements of the specification\<close>

text \<open>
  The array flattener in the words of the specification: a distinct (hash, array) pair is
  exploded into one row per element, and an empty array, a NULL and any value that is not an
  array give one row with a NULL element.
\<close>

fun exploded_elements :: "val \<Rightarrow> val list" where
  "exploded_elements (VArr (x # xs)) = x # xs"
| "exploded_elements v = [VNull]"

definition spec_child_rows :: "string \<Rightarrow> row list \<Rightarrow> row list" where
  "spec_child_rows array_field pairs =
     concat (map (\<lambda>p. map (\<lambda>e. [cell [array_field @ ''_SHA256'', array_field] p (array_field @ ''_SHA256''), e])
                           (exploded_elements (cell [array_field @ ''_SHA256'', array_field] p array_field)))
                 pairs)"

section \<open>Properties\<close>

subsection \<open>Basic facts\<close>

lemma collect_results_Nil: "collect_results [] = []"
  by (simp add: collect_results_def)

lemma save_results_Nil: "save_results s [] tabs = tabs"
  by (simp add: save_results_def)

subsection \<open>Data frames\<close>

lemma cell_select:
  "cell (map fst es) (map (\<lambda>e. snd e look) es) c =
     (case map_of es c of Some e \<Rightarrow> e look | None \<Rightarrow> VNull)"
proof -
  have "zip (map fst es) (map (\<lambda>e. snd e look) es) = map (\<lambda>(k, e). (k, e look)) es"
    by (induction es) auto
  then show ?thesis
    by (simp add: cell_def map_of_map split: option.splits)
qed

lemma columns_df_select [simp]: "columns (df_select es df) = map fst es"
  by (simp add: df_select_def)

lemma length_rows_df_select [simp]: "length (rows (df_select es df)) = length (rows df)"
  by (simp add: df_select_def)

lemma columns_df_select_names [simp]: "columns (df_select_names ns df) = ns"
  by (simp add: df_select_names_def comp_def)

lemma rows_df_select_names:
  "rows (df_select_names ns df) = map (\<lambda>r. map (cell (columns df) r) ns) (rows df)"
  by (simp add: df_select_names_def df_select_def comp_def col_def)

lemma columns_df_distinct [simp]: "columns (df_distinct eng df) = columns df"
  by (simp add: df_distinct_def)

lemma columns_df_limit [simp]: "columns (df_limit n df) = columns df"
  by (simp add: df_limit_def)

lemma columns_df_filter [simp]: "columns (df_filter p df) = columns df"
  by (simp add: df_filter_def)

lemma columns_df_drop [simp]: "columns (df_drop ns df) = filter (\<lambda>c. c \<notin> set ns) (columns df)"
  by (simp add: df_drop_def)

lemma columns_df_replace_columns [simp]:
  "length names = length vals \<Longrightarrow>
   columns (df_replace_columns names vals df) = filter (\<lambda>c. c \<notin> set names) (columns df) @ names"
  by (simp add: df_replace_columns_def comp_def)

lemma columns_df_with_column [simp]:
  "columns (df_with_column name v df) = filter (\<lambda>c. c \<noteq> name) (columns df) @ [name]"
  by (simp add: df_with_column_def)

lemma engine_ok_set_order:
  assumes "engine_ok eng"
  shows "set (set_order eng xs) = set xs" and "distinct (set_order eng xs) = distinct xs"
    and "length (set_order eng xs) = length xs"
proof -
  have m: "mset (set_order eng xs) = mset xs" using assms by (simp add: engine_ok_def)
  show "set (set_order eng xs) = set xs" using m by (rule mset_eq_setD)
  show "distinct (set_order eng xs) = distinct xs" using m by (rule mset_eq_imp_distinct_iff)
  show "length (set_order eng xs) = length xs" using m by (rule mset_eq_length)
qed

lemma engine_ok_row_order:
  assumes "engine_ok eng"
  shows "set (row_order eng rs) = set rs" and "distinct (row_order eng rs) = distinct rs"
    and "length (row_order eng rs) = length rs"
proof -
  have m: "mset (row_order eng rs) = mset rs" using assms by (simp add: engine_ok_def)
  show "set (row_order eng rs) = set rs" using m by (rule mset_eq_setD)
  show "distinct (row_order eng rs) = distinct rs" using m by (rule mset_eq_imp_distinct_iff)
  show "length (row_order eng rs) = length rs" using m by (rule mset_eq_length)
qed

lemma engine_ok_demo: "engine_ok demo_engine"
  by (simp add: engine_ok_def demo_engine_def)

subsection \<open>The depth cap at 1\<close>

text \<open>
  C1, as the program has it.  With \<^verbatim>\<open>max_recursive_calls = 1\<close> the first call is the
  terminal one: it logs the warning and returns, and it records no table.  The run completes
  without an exception, \<^verbatim>\<open>globals()\<close> is left as it was, and the returned dictionary holds
  only what \<^verbatim>\<open>globals()\<close> held before the call, whatever the input table is.
\<close>

theorem depth_cap_one_records_nothing:
  "map_of tabs input_relation = Some df \<Longrightarrow>
   snowpark_main_handler (Suc fuel) eng tabs g input_relation output_schema 1 prefix suffix =
     Some (Inr (collect_results g), save_results output_schema (collect_results g) tabs,
           \<lparr>processed_fields = {}, globals = g,
              log = [LogCallStart 1 (df_count df) {}, LogTerminated 1]
                      @ map (\<lambda>item. LogResult (fst item)) (collect_results g)\<rparr>)"
  by (simp add: snowpark_main_handler_def Let_def add_log_def)

theorem depth_cap_one_records_nothing_witness:
  "snowpark_main_handler (Suc 0) demo_engine [(''SRC'', demo_orders)] [] ''SRC'' ''OUT'' 1 [] [] =
     Some (Inr [], [(''SRC'', demo_orders)],
           \<lparr>processed_fields = {}, globals = [],
              log = [LogCallStart 1 3 {}, LogTerminated 1]\<rparr>)"
  using depth_cap_one_records_nothing
          [of "[(''SRC'', demo_orders)]" "''SRC''" demo_orders 0 demo_engine "[]" "''OUT''" "[]" "[]"]
  by (simp add: collect_results_Nil save_results_Nil df_count_def demo_orders_def)

text \<open>C1 as stated fails: the table with a nested array is not in the returned dictionary,
  which is empty.\<close>

theorem depth_cap_one_counterexample:
  "map_option fst
     (snowpark_main_handler 5 demo_engine [(''SRC'', demo_orders)] [] ''SRC'' ''OUT'' 1 [] [])
   = Some (Inr []) \<and>
   map_option fst
     (snowpark_main_handler 5 demo_engine [(''SRC'', demo_orders)] [] ''SRC'' ''OUT'' 1 [] [])
   \<noteq> Some (Inr [(''ENTRY'', demo_orders)])"
  by code_simp

subsection \<open>The array flattener\<close>

lemma hash_field_neq: "f @ ''_SHA256'' \<noteq> f"
  by simp

lemma hash_field_not_flatten_col: "f @ ''_SHA256'' \<notin> set FLATTEN_COLS"
proof
  assume "f @ ''_SHA256'' \<in> set FLATTEN_COLS"
  then have "length (f @ ''_SHA256'') \<in> length ` set FLATTEN_COLS"
    by (rule imageI)
  then show False by (simp add: FLATTEN_COLS_def)
qed

lemma flatten_array_rows_value:
  "map (\<lambda>out. out ! 4) (flatten_array_rows seq this xs) = xs"
proof -
  have "map (\<lambda>out. out ! 4) (flatten_array_rows seq this xs) = map snd (zip [0..<length xs] xs)"
    by (simp add: flatten_array_rows_def comp_def)
  then show ?thesis by (simp add: map_snd_zip)
qed

lemma flatten_array_rows_Nil: "(flatten_array_rows seq this xs = []) = (xs = [])"
  by (simp add: flatten_array_rows_def)

lemma flatten_array_rows_length: "\<forall>out \<in> set (flatten_array_rows seq this xs). length out = 6"
  by (simp add: flatten_array_rows_def)

lemma flatten_object_rows_length: "\<forall>out \<in> set (flatten_object_rows seq this xs). length out = 6"
  by (simp add: flatten_object_rows_def)

lemma flatten_value_array_outer:
  "map (\<lambda>out. out ! 4) (flatten_value MODE_ARRAY True seq v) = exploded_elements v"
proof (cases v)
  case (VArr xs)
  then show ?thesis
    by (cases xs) (simp_all add: flatten_value_def flatten_array_rows_value flatten_array_rows_Nil)
qed (simp_all add: flatten_value_def)


lemma flatten_value_length: "\<forall>out \<in> set (flatten_value m outer seq v). length out = 6"
proof (cases "flatten_expand m seq v = [] \<and> outer")
  case True
  then show ?thesis by (simp add: flatten_value_def)
next
  case False
  have "\<forall>out \<in> set (flatten_expand m seq v). length out = 6"
    by (cases "(m, seq, v)" rule: flatten_expand.cases)
       (simp_all add: flatten_array_rows_length flatten_object_rows_length)
  with False show ?thesis by (simp add: flatten_value_def)
qed

lemma cell_joined_value:
  assumes "length out = 6" "hf \<noteq> ''VALUE''" "f \<noteq> ''VALUE''"
  shows "cell (hf # f # FLATTEN_COLS) (a # b # out) ''VALUE'' = out ! 4"
proof -
  from assms(1) obtain o0 o1 o2 o3 o4 o5 where "out = [o0, o1, o2, o3, o4, o5]"
    by (auto simp: length_Suc_conv eval_nat_numeral)
  then show ?thesis using assms(2,3) by (simp add: cell_def FLATTEN_COLS_def)
qed

lemma cell_head: "cell (c # cs) (a # r) c = a"
  by (simp add: cell_def)

lemma cell_second: "c' \<noteq> c \<Longrightarrow> cell (c' # c # cs) (a # b # r) c = b"
  by (simp add: cell_def)

lemma concat_map_zip_index:
  "concat (map (\<lambda>ir. G (snd ir)) (zip [0..<length ps] ps)) = concat (map G ps)"
proof -
  have "map (\<lambda>ir. G (snd ir)) (zip [0..<length ps] ps) = map G (map snd (zip [0..<length ps] ps))"
    by (simp only: map_map comp_def)
  then show ?thesis by (simp add: map_snd_zip)
qed

lemma flatten_array_child_gen:
  assumes "array_field \<noteq> ''VALUE''"
  shows "fst (flatten_array eng df array_field) =
           \<lparr>columns = [array_field @ ''_SHA256'', array_field],
              rows = spec_child_rows array_field
                       (rows (df_distinct eng
                                (df_select_names [array_field @ ''_SHA256'', array_field] df)))\<rparr>"
proof -
  define hf where "hf = array_field @ ''_SHA256''"
  define u where "u = df_distinct eng (df_select_names [hf, array_field] df)"
  define j where "j = df_join_flatten (col array_field) MODE_ARRAY True u"
  have hf1: "hf \<noteq> array_field" by (simp add: hf_def)
  have hf2: "hf \<notin> set FLATTEN_COLS" unfolding hf_def by (rule hash_field_not_flatten_col)
  have cu: "columns u = [hf, array_field]" by (simp add: u_def)
  have cj: "columns j = hf # array_field # FLATTEN_COLS" by (simp add: j_def df_join_flatten_def cu)
  have keep: "filter (\<lambda>c. c \<notin> set (DROPPED_COLS @ [array_field])) (hf # array_field # FLATTEN_COLS)
                = [hf, ''VALUE'']"
    using assms hf1 hf2 by (auto simp: DROPPED_COLS_def FLATTEN_COLS_def)
  have row: "map (\<lambda>r. map (cell (hf # array_field # FLATTEN_COLS) r) [hf, ''VALUE''])
               (map (\<lambda>out. cell [hf, array_field] p hf # cell [hf, array_field] p array_field # out)
                    (flatten_value MODE_ARRAY True seq (cell [hf, array_field] p array_field)))
             = map (\<lambda>e. [cell [hf, array_field] p hf, e])
                   (exploded_elements (cell [hf, array_field] p array_field))" for p seq
  proof -
    let ?fv = "flatten_value MODE_ARRAY True seq (cell [hf, array_field] p array_field)"
    have "map (\<lambda>r. map (cell (hf # array_field # FLATTEN_COLS) r) [hf, ''VALUE''])
               (map (\<lambda>out. cell [hf, array_field] p hf # cell [hf, array_field] p array_field # out) ?fv)
          = map (\<lambda>out. [cell [hf, array_field] p hf, out ! 4]) ?fv"
    proof (simp only: map_map, rule map_cong [OF refl])
      fix out assume "out \<in> set ?fv"
      then have len: "length out = 6" using flatten_value_length by blast
      have v: "hf \<noteq> ''VALUE''" "array_field \<noteq> ''VALUE''"
        using hf2 assms by (auto simp: FLATTEN_COLS_def)
      show "((\<lambda>r. map (cell (hf # array_field # FLATTEN_COLS) r) [hf, ''VALUE'']) \<circ>
             (\<lambda>out. cell [hf, array_field] p hf # cell [hf, array_field] p array_field # out)) out
            = [cell [hf, array_field] p hf, out ! 4]"
        using cell_joined_value [OF len v] by (simp add: cell_head)
    qed
    also have "\<dots> = map (\<lambda>e. [cell [hf, array_field] p hf, e]) (map (\<lambda>out. out ! 4) ?fv)"
      by (simp add: comp_def)
    finally show ?thesis by (simp add: flatten_value_array_outer)
  qed
  define sel where "sel = (\<lambda>r. map (cell (hf # array_field # FLATTEN_COLS) r) [hf, ''VALUE''])"
  define F where "F = (\<lambda>ir :: nat \<times> row.
      map (\<lambda>out. cell [hf, array_field] (snd ir) hf # cell [hf, array_field] (snd ir) array_field # out)
          (flatten_value MODE_ARRAY True (Suc (fst ir)) (cell [hf, array_field] (snd ir) array_field)))"
  define spec where "spec = (\<lambda>p. map (\<lambda>e. [cell [hf, array_field] p hf, e])
                                   (exploded_elements (cell [hf, array_field] p array_field)))"
  have selF: "map sel (F ir) = spec (snd ir)" for ir
    unfolding sel_def F_def spec_def by (rule row)
  have rows_j: "rows j = concat (map F (zip [0..<length (rows u)] (rows u)))"
    unfolding F_def by (simp add: j_def df_join_flatten_def cu col_def)
  have "rows (df_drop (DROPPED_COLS @ [array_field]) j) = map sel (rows j)"
    unfolding sel_def by (simp only: df_drop_def keep rows_df_select_names cj)
  also have "\<dots> = concat (map (\<lambda>ir. map sel (F ir)) (zip [0..<length (rows u)] (rows u)))"
    by (simp only: rows_j map_concat map_map comp_def)
  also have "\<dots> = concat (map (\<lambda>ir. spec (snd ir)) (zip [0..<length (rows u)] (rows u)))"
    by (simp only: selF)
  also have "\<dots> = concat (map spec (rows u))"
    by (rule concat_map_zip_index)
  also have "\<dots> = spec_child_rows array_field (rows u)"
    by (simp only: spec_child_rows_def spec_def hf_def)
  finally have rj: "rows (df_drop (DROPPED_COLS @ [array_field]) j) = spec_child_rows array_field (rows u)" .
  have cd: "columns (df_drop (DROPPED_COLS @ [array_field]) j) = [hf, ''VALUE'']"
    by (simp only: columns_df_drop cj keep)
  show ?thesis
    using hf2 rj cd
    by (simp add: flatten_array_def Let_def df_with_column_renamed_def hf_def [symmetric]
          u_def [symmetric] j_def [symmetric] FLATTEN_COLS_def)
qed

lemma flatten_array_child:
  assumes "array_field \<notin> set FLATTEN_COLS"
  shows "fst (flatten_array eng df array_field) =
           \<lparr>columns = [array_field @ ''_SHA256'', array_field],
              rows = spec_child_rows array_field
                       (rows (df_distinct eng
                                (df_select_names [array_field @ ''_SHA256'', array_field] df)))\<rparr>"
proof (rule flatten_array_child_gen)
  from assms show "array_field \<noteq> ''VALUE''" by (auto simp: FLATTEN_COLS_def)
qed

subsection \<open>Rows as lookups\<close>

lemma cell_select_fun:
  "cell (map fst es) (map (\<lambda>e. snd e look) es) =
     (\<lambda>c. case map_of es c of Some e \<Rightarrow> e look | None \<Rightarrow> VNull)"
  by (rule ext) (rule cell_select)

lemma df_collect_select:
  "df_collect (df_select es df) =
     map (\<lambda>look c. case map_of es c of Some e \<Rightarrow> e look | None \<Rightarrow> VNull) (df_collect df)"
  by (simp add: df_collect_def df_select_def comp_def cell_select_fun)

lemma cell_not_column: "c \<notin> set cs \<Longrightarrow> cell cs r c = VNull"
proof -
  assume "c \<notin> set cs"
  then have "c \<notin> fst ` set (zip cs r)" by (auto dest: set_zip_leftD)
  then have "map_of (zip cs r) c = None" by (simp add: map_of_eq_None_iff)
  then show ?thesis by (simp add: cell_def)
qed

lemma map_of_col_names:
  "map_of (map (\<lambda>n. (n, col n)) ns) c = (if c \<in> set ns then Some (col c) else None)"
  by (induction ns) auto

lemma df_collect_select_names:
  "df_collect (df_select_names ns df) =
     map (\<lambda>look c. if c \<in> set ns then look c else VNull) (df_collect df)"
proof -
  have *: "(case map_of (map (\<lambda>n. (n, col n)) ns) c of Some e \<Rightarrow> e look | None \<Rightarrow> VNull)
           = (if c \<in> set ns then look c else VNull)" for c look
    by (simp add: map_of_col_names col_def)
  show ?thesis by (simp add: df_select_names_def df_collect_select *)
qed

lemma df_collect_drop:
  "df_collect (df_drop ns df) =
     map (\<lambda>look c. if c \<in> set ns then VNull else look c) (df_collect df)"
proof -
  have "(if c \<in> set (filter (\<lambda>c. c \<notin> set ns) (columns df)) then cell (columns df) r c else VNull)
        = (if c \<in> set ns then VNull else cell (columns df) r c)" for c r
    by (simp add: cell_not_column)
  then show ?thesis
    by (simp add: df_drop_def df_collect_select_names) (simp add: df_collect_def)
qed

lemma df_collect_with_column:
  "df_collect (df_with_column name v df) = map (\<lambda>look. look(name := v look)) (df_collect df)"
proof -
  have "(case map_of (map (\<lambda>n. (n, col n)) (filter (\<lambda>c. c \<noteq> name) (columns df)) @ [(name, v)]) c of
           Some e \<Rightarrow> e (cell (columns df) r) | None \<Rightarrow> VNull)
        = ((cell (columns df) r)(name := v (cell (columns df) r))) c" for c r
    by (simp add: map_add_def map_of_col_names col_def cell_not_column split: option.splits)
  then have "(\<lambda>c. case map_of (map (\<lambda>n. (n, col n)) (filter (\<lambda>c. c \<noteq> name) (columns df)) @ [(name, v)]) c of
           Some e \<Rightarrow> e (cell (columns df) r) | None \<Rightarrow> VNull)
        = (cell (columns df) r)(name := v (cell (columns df) r))" for r
    by (rule ext)
  then show ?thesis
    by (simp add: df_with_column_def df_replace_columns_def df_collect_select) (simp add: df_collect_def)
qed




subsection \<open>Deduplication of identical arrays\<close>

lemma rows_select_names_collect:
  "rows (df_select_names ns df) = map (\<lambda>look. map look ns) (df_collect df)"
  by (simp add: rows_df_select_names df_collect_def)

lemma remdups_constant:
  assumes "xs \<noteq> []" "\<forall>x \<in> set xs. x = a"
  shows "remdups xs = [a]"
  using assms
proof (induction xs)
  case Nil
  then show ?case by simp
next
  case (Cons x xs)
  then show ?case by (cases xs) auto
qed

lemma row_order_single: "engine_ok eng \<Longrightarrow> row_order eng [a] = [a]"
proof -
  assume "engine_ok eng"
  then have "mset (row_order eng [a]) = {#a#}" by (simp add: engine_ok_def)
  then show ?thesis by simp
qed

lemma hashed_pairs_same_array:
  assumes ok: "engine_ok eng"
    and ne: "rows df \<noteq> []"
    and same: "\<forall>r \<in> set (rows df). cell (columns df) r array_field = VArr xs"
  shows "rows (df_distinct eng
           (df_select_names [array_field @ ''_SHA256'', array_field]
              (df_with_column (array_field @ ''_SHA256'')
                 (sha2_cast_string eng (col array_field)) df)))
         = [[sha2_string eng (VArr xs), VArr xs]]"
proof -
  let ?hf = "array_field @ ''_SHA256''"
  let ?ps = "map (\<lambda>look. map (look(?hf := sha2_cast_string eng (col array_field) look)) [?hf, array_field])
               (df_collect df)"
  have "\<forall>p \<in> set ?ps. p = [sha2_string eng (VArr xs), VArr xs]"
    using same by (auto simp: df_collect_def sha2_cast_string_def col_def)
  moreover have "?ps \<noteq> []" using ne by (simp add: df_collect_def)
  ultimately have "remdups ?ps = [[sha2_string eng (VArr xs), VArr xs]]"
    by (rule remdups_constant [rotated])
  then show ?thesis
    using ok
    by (simp add: df_distinct_def rows_select_names_collect df_collect_with_column comp_def
          row_order_single)
qed

lemma spec_child_rows_single:
  "spec_child_rows array_field [[h, v]] = map (\<lambda>e. [h, e]) (exploded_elements v)"
  by (simp add: spec_child_rows_def cell_def)




subsection \<open>Type detection\<close>

lemma typeof_val_array: "(typeof_val v = VStr ''ARRAY'') = is_array v"
  by (cases v) simp_all

lemma typeof_val_object: "(typeof_val v = VStr ''OBJECT'') = is_object v"
  by (cases v) simp_all

lemma cell_single: "cell [c] [v] c = v"
  by (simp add: cell_def)

lemma to_unpack_sampled:
  "to_unpack_cur_field_dtypes eng df cur_field =
     map (cell [''TYPEOF''])
       (filter (\<lambda>r. isin (cell [''TYPEOF''] r ''TYPEOF'') [VStr ''ARRAY'', VStr ''OBJECT''])
          (row_order eng (remdups (map (\<lambda>v. [typeof_val v]) (sampled_values eng df cur_field)))))"
  by (simp add: to_unpack_cur_field_dtypes_def sampled_values_def Let_def df_collect_def
        df_filter_def df_distinct_def df_select_def df_limit_def typeof_def col_def comp_def)

lemma sampled_values_subset:
  assumes "engine_ok eng"
  shows "set (sampled_values eng df cur_field) \<subseteq> (\<lambda>r. cell (columns df) r cur_field) ` set (rows df)"
proof -
  have "set (take detect_dtype_from_first
               (row_order eng (remdups (map (\<lambda>r. [cell (columns df) r cur_field]) (rows df)))))
        \<subseteq> (\<lambda>r. [cell (columns df) r cur_field]) ` set (rows df)"
    using set_take_subset [of detect_dtype_from_first]
    by (fastforce simp: engine_ok_row_order(1) [OF assms])
  then show ?thesis
    by (auto simp: sampled_values_def df_collect_def df_limit_def df_distinct_def df_select_def
          cast_variant_def col_def cell_single)
qed

lemma kinds_rows:
  fixes eng :: engine and vs :: "val list"
  assumes "engine_ok eng"
  defines "K \<equiv> filter (\<lambda>r. isin (cell [''TYPEOF''] r ''TYPEOF'') [VStr ''ARRAY'', VStr ''OBJECT''])
                  (row_order eng (remdups (map (\<lambda>v. [typeof_val v]) vs)))"
  shows "distinct K"
    and "set K = (if \<exists>v \<in> set vs. is_array v then {[VStr ''ARRAY'']} else {})
               \<union> (if \<exists>v \<in> set vs. is_object v then {[VStr ''OBJECT'']} else {})"
proof -
  show "distinct K"
    unfolding K_def by (simp add: engine_ok_row_order(2) [OF assms(1)])
  have "set K = {r. \<exists>v \<in> set vs. r = [typeof_val v] \<and> (is_array v \<or> is_object v)}"
    unfolding K_def
    by (auto simp: engine_ok_row_order(1) [OF assms(1)] isin_def cell_single
          typeof_val_array typeof_val_object)
  also have "\<dots> = (if \<exists>v \<in> set vs. is_array v then {[VStr ''ARRAY'']} else {})
               \<union> (if \<exists>v \<in> set vs. is_object v then {[VStr ''OBJECT'']} else {})"
  proof -
    have a: "typeof_val v = VStr ''ARRAY''" if "is_array v" for v
      using that by (simp add: typeof_val_array)
    have b: "typeof_val v = VStr ''OBJECT''" if "is_object v" for v
      using that by (simp add: typeof_val_object)
    show ?thesis
      by (auto simp: a b) (use a b in force)+
  qed
  finally show "set K = (if \<exists>v \<in> set vs. is_array v then {[VStr ''ARRAY'']} else {})
               \<union> (if \<exists>v \<in> set vs. is_object v then {[VStr ''OBJECT'']} else {})" .
qed


lemma distinct_set_singleton:
  assumes "distinct xs" "set xs = {a}"
  shows "xs = [a]"
proof (cases xs)
  case Nil
  with assms show ?thesis by simp
next
  case (Cons x ys)
  with assms have "x = a" by auto
  moreover from Cons assms have "set ys \<subseteq> {a}" "a \<notin> set ys" using \<open>x = a\<close> by auto
  then have "ys = []" by (cases ys) auto
  ultimately show ?thesis using Cons by simp
qed

lemma to_unpack_scalar:
  assumes "engine_ok eng"
    and "\<forall>v \<in> set (sampled_values eng df cur_field). \<not> is_array v \<and> \<not> is_object v"
  shows "to_unpack_cur_field_dtypes eng df cur_field = []"
  using kinds_rows(2) [OF assms(1), of "sampled_values eng df cur_field"] assms(2)
  by (simp add: to_unpack_sampled)

lemma to_unpack_ambiguous:
  assumes "engine_ok eng"
    and "\<exists>v \<in> set (sampled_values eng df cur_field). is_array v"
    and "\<exists>v \<in> set (sampled_values eng df cur_field). is_object v"
  shows "length (to_unpack_cur_field_dtypes eng df cur_field) = 2"
proof -
  let ?K = "filter (\<lambda>r. isin (cell [''TYPEOF''] r ''TYPEOF'') [VStr ''ARRAY'', VStr ''OBJECT''])
              (row_order eng (remdups (map (\<lambda>v. [typeof_val v]) (sampled_values eng df cur_field))))"
  have "set ?K = {[VStr ''ARRAY''], [VStr ''OBJECT'']}"
    using kinds_rows(2) [OF assms(1), of "sampled_values eng df cur_field"] assms(2,3) by auto
  then have c: "card (set ?K) = 2" by simp
  have d: "distinct ?K" by (rule kinds_rows(1) [OF assms(1)])
  have "length ?K = 2" using distinct_card [OF d] c by (simp only:)
  then show ?thesis by (simp add: to_unpack_sampled)
qed

lemma to_unpack_array:
  assumes "engine_ok eng"
    and "\<exists>v \<in> set (sampled_values eng df cur_field). is_array v"
    and "\<forall>v \<in> set (sampled_values eng df cur_field). \<not> is_object v"
  shows "to_unpack_cur_field_dtypes eng df cur_field = [cell [''TYPEOF''] [VStr ''ARRAY'']]"
proof -
  let ?K = "filter (\<lambda>r. isin (cell [''TYPEOF''] r ''TYPEOF'') [VStr ''ARRAY'', VStr ''OBJECT''])
              (row_order eng (remdups (map (\<lambda>v. [typeof_val v]) (sampled_values eng df cur_field))))"
  have "set ?K = {[VStr ''ARRAY'']}"
    using kinds_rows(2) [OF assms(1), of "sampled_values eng df cur_field"] assms(2,3) by auto
  moreover have "distinct ?K" by (rule kinds_rows(1) [OF assms(1)])
  ultimately have "?K = [[VStr ''ARRAY'']]" by (rule distinct_set_singleton [rotated])
  then show ?thesis by (simp add: to_unpack_sampled)
qed

lemma to_unpack_object:
  assumes "engine_ok eng"
    and "\<exists>v \<in> set (sampled_values eng df cur_field). is_object v"
    and "\<forall>v \<in> set (sampled_values eng df cur_field). \<not> is_array v"
  shows "to_unpack_cur_field_dtypes eng df cur_field = [cell [''TYPEOF''] [VStr ''OBJECT'']]"
proof -
  let ?K = "filter (\<lambda>r. isin (cell [''TYPEOF''] r ''TYPEOF'') [VStr ''ARRAY'', VStr ''OBJECT''])
              (row_order eng (remdups (map (\<lambda>v. [typeof_val v]) (sampled_values eng df cur_field))))"
  have "set ?K = {[VStr ''OBJECT'']}"
    using kinds_rows(2) [OF assms(1), of "sampled_values eng df cur_field"] assms(2,3) by auto
  moreover have "distinct ?K" by (rule kinds_rows(1) [OF assms(1)])
  ultimately have "?K = [[VStr ''OBJECT'']]" by (rule distinct_set_singleton [rotated])
  then show ?thesis by (simp add: to_unpack_sampled)
qed

lemma process_field_scalar:
  assumes "to_unpack_cur_field_dtypes eng df cur_field = []"
  shows "process_field eng cur_field df new_dfs st =
           (None, df, new_dfs,
            st\<lparr>processed_fields := insert cur_field (processed_fields st),
                log := log st @ [LogCurrentField cur_field, LogEndOfPath cur_field]\<rparr>)"
  using assms by (simp add: process_field_def add_log_def)

lemma process_field_ambiguous:
  assumes "length (to_unpack_cur_field_dtypes eng df cur_field) = 2"
  shows "process_field eng cur_field df new_dfs st =
           (Some (TypeError ''\"%s\" does not have a unique dtype of either ARRAY or OBJECT.''),
            df, new_dfs, st\<lparr>log := log st @ [LogCurrentField cur_field]\<rparr>)"
  using assms by (simp add: process_field_def add_log_def)

lemma process_field_array:
  assumes "to_unpack_cur_field_dtypes eng df cur_field = [cell [''TYPEOF''] [VStr ''ARRAY'']]"
  shows "process_field eng cur_field df new_dfs st =
           (let df1 = df_with_column (cur_field @ ''_SHA256'') (sha2_cast_string eng (col cur_field)) df;
                res = flatten_array eng df1 cur_field
            in (None, df_drop [cur_field] df1, dict_set cur_field (fst res) new_dfs,
                st\<lparr>log := log st @ [LogCurrentField cur_field, LogDtype cur_field (VStr ''ARRAY'')]
                                @ snd res\<rparr>))"
  using assms by (simp add: process_field_def add_log_def Let_def cell_single)

lemma process_field_object:
  assumes "to_unpack_cur_field_dtypes eng df cur_field = [cell [''TYPEOF''] [VStr ''OBJECT'']]"
  shows "process_field eng cur_field df new_dfs st =
           (case expand_object_subfields eng df cur_field of
              (Inl e, evs) \<Rightarrow>
                (Some e, df, new_dfs,
                 st\<lparr>log := log st @ [LogCurrentField cur_field, LogDtype cur_field (VStr ''OBJECT'')]
                                 @ evs\<rparr>)
            | (Inr df1, evs) \<Rightarrow>
                (None, df_drop [cur_field] df1, new_dfs,
                 st\<lparr>processed_fields := insert cur_field (processed_fields st),
                     log := log st @ [LogCurrentField cur_field, LogDtype cur_field (VStr ''OBJECT'')]
                                 @ evs @ [LogEndOfPath cur_field]\<rparr>))"
  using assms
  by (simp add: process_field_def add_log_def Let_def cell_single split: prod.splits sum.splits)

subsection \<open>Exceptions\<close>

lemma process_fields_scalars:
  assumes "\<forall>c \<in> set pre. to_unpack_cur_field_dtypes eng df c = []"
  shows "\<exists>st'. process_fields eng (pre @ fs) df new_dfs st = process_fields eng fs df new_dfs st'
               \<and> processed_fields st' = processed_fields st \<union> set pre
               \<and> globals st' = globals st"
  using assms
proof (induction pre arbitrary: st)
  case Nil
  show ?case by (intro exI [of _ st]) simp
next
  case (Cons c pre)
  let ?st1 = "st\<lparr>processed_fields := insert c (processed_fields st),
                  log := log st @ [LogCurrentField c, LogEndOfPath c]\<rparr>"
  from Cons.prems have c: "to_unpack_cur_field_dtypes eng df c = []" by simp
  from Cons.prems have "\<forall>c \<in> set pre. to_unpack_cur_field_dtypes eng df c = []" by simp
  from Cons.IH [OF this, of ?st1] obtain st' where
    "process_fields eng (pre @ fs) df new_dfs ?st1 = process_fields eng fs df new_dfs st'"
    "processed_fields st' = processed_fields ?st1 \<union> set pre" "globals st' = globals ?st1"
    by blast
  then show ?case
    by (intro exI [of _ st']) (simp add: process_field_scalar [OF c])
qed

lemma expand_object_no_keys:
  assumes "subfield_keys eng df obj_field = []"
  shows "expand_object_subfields eng df obj_field =
           (Inl (ValueError ''not enough values to unpack (expected 2, got 0)''),
            [LogSubfields obj_field 0 []])"
  using assms by (simp add: expand_object_subfields_def)

lemma model_raises:
  assumes "process_fields eng (set_order eng (cur_unprocessed_fields df (processed_fields st))) df []
             (add_log [LogCallStart (counter + 1) (df_count df) (processed_fields st)] st)
           = (Some e, res)"
    and "cur_unprocessed_fields df (processed_fields st) \<noteq> []"
    and "counter + 1 \<noteq> max_recursive_calls cfg"
  shows "model_nested_JSON_objects (Suc fuel) eng cfg df parent_path counter st
           = Some (Some e, snd (snd res))"
  using assms by (simp add: Let_def add_log_def split: prod.splits)

lemma handler_raises:
  assumes "map_of tabs input_relation = Some df"
    and "model_nested_JSON_objects fuel eng
           \<lparr>max_recursive_calls = max_calls, output_table_prefix = prefix,
              output_table_suffix = suffix\<rparr> df ''ENTRY'' 0
           \<lparr>processed_fields = {}, globals = g, log = []\<rparr> = Some (Some e, st)"
  shows "snowpark_main_handler fuel eng tabs g input_relation output_schema max_calls prefix suffix
           = Some (Inl e, tabs, st)"
  using assms by (simp add: snowpark_main_handler_def)

lemma ambiguous_field_raises:
  assumes "engine_ok eng"
    and "\<exists>v \<in> set (sampled_values eng df cur_field). is_array v"
    and "\<exists>v \<in> set (sampled_values eng df cur_field). is_object v"
  shows "process_field eng cur_field df new_dfs st =
           (Some (TypeError ''\"%s\" does not have a unique dtype of either ARRAY or OBJECT.''),
            df, new_dfs, st\<lparr>log := log st @ [LogCurrentField cur_field]\<rparr>)"
  by (rule process_field_ambiguous [OF to_unpack_ambiguous [OF assms]])

text \<open>
  C2.  A field whose sampled values hold an array and an object makes the run fail with the
  TypeError of line 139, and no dictionary is returned.  The message of that exception is the
  literal of the source, in which the placeholder \<^verbatim>\<open>%s\<close> is never filled in: it does not
  name the field.  The run below is on a frame whose column PAYLOAD holds an array in one
  row and an object in the other.
\<close>

theorem ambiguous_type_error_message:
  "map_option fst
     (snowpark_main_handler 3 demo_engine [(''SRC'', demo_mixed)] [] ''SRC'' ''OUT'' 100 [] [])
   = Some (Inl (TypeError ''\"%s\" does not have a unique dtype of either ARRAY or OBJECT.''))
   \<and> \<not> str_contains ''PAYLOAD'' ''\"%s\" does not have a unique dtype of either ARRAY or OBJECT.''"
  by code_simp

text \<open>
  C10.  A field that the type detection takes for an object and for which no key is found
  (every object of the field is empty, say) makes \<open>expand_object_subfields\<close> fail with the
  ValueError of the unpacking of line 88; it does not return the frame with no new column.  The
  exception ends the whole run: when the field is reached in the first call (the fields the
  loop visits before it are scalar), the handler raises it and returns no dictionary.
\<close>

theorem empty_object_expansion_fails:
  assumes "engine_ok eng"
    and "\<exists>v \<in> set (sampled_values eng df obj_field). is_object v"
    and "\<forall>v \<in> set (sampled_values eng df obj_field). \<not> is_array v"
    and "subfield_keys eng df obj_field = []"
    and "set_order eng (cur_unprocessed_fields df {}) = pre @ obj_field # rest"
    and "\<forall>c \<in> set pre. to_unpack_cur_field_dtypes eng df c = []"
    and "max_calls \<noteq> 1"
    and "map_of tabs input_relation = Some df"
  shows "fst (expand_object_subfields eng df obj_field)
           = Inl (ValueError ''not enough values to unpack (expected 2, got 0)'')
         \<and> map_option fst
             (snowpark_main_handler (Suc fuel) eng tabs g input_relation output_schema
                max_calls prefix suffix)
           = Some (Inl (ValueError ''not enough values to unpack (expected 2, got 0)''))"
proof -
  let ?err = "ValueError ''not enough values to unpack (expected 2, got 0)''"
  let ?st0 = "\<lparr>processed_fields = {}, globals = g, log = []\<rparr>"
  let ?st1 = "add_log [LogCallStart (0 + 1) (df_count df) (processed_fields ?st0)] ?st0"
  let ?cfg = "\<lparr>max_recursive_calls = max_calls, output_table_prefix = prefix,
                output_table_suffix = suffix\<rparr>"
  have obj: "to_unpack_cur_field_dtypes eng df obj_field = [cell [''TYPEOF''] [VStr ''OBJECT'']]"
    by (rule to_unpack_object [OF assms(1,2,3)])
  obtain st' where st':
    "process_fields eng (pre @ obj_field # rest) df [] ?st1
       = process_fields eng (obj_field # rest) df [] st'"
    using process_fields_scalars [OF assms(6)] by blast
  have pf: "fst (process_field eng obj_field df [] st') = Some ?err"
    by (simp add: process_field_object [OF obj] expand_object_no_keys [OF assms(4)])
  then obtain res where "process_field eng obj_field df [] st' = (Some ?err, res)"
    by (cases "process_field eng obj_field df [] st'") auto
  then have "process_fields eng (obj_field # rest) df [] st' = (Some ?err, res)" by simp
  with st' assms(5)
  have loop: "process_fields eng (set_order eng (cur_unprocessed_fields df (processed_fields ?st0))) df []
                ?st1 = (Some ?err, res)"
    by simp
  have ne: "cur_unprocessed_fields df (processed_fields ?st0) \<noteq> []"
  proof
    assume "cur_unprocessed_fields df (processed_fields ?st0) = []"
    then have "set (set_order eng (cur_unprocessed_fields df {})) = {}"
      by (simp add: engine_ok_set_order(1) [OF assms(1)])
    with assms(5) show False by simp
  qed
  have "model_nested_JSON_objects (Suc fuel) eng ?cfg df ''ENTRY'' 0 ?st0 = Some (Some ?err, snd (snd res))"
    by (rule model_raises [OF loop ne]) (use assms(7) in simp)
  from handler_raises [OF assms(8) this]
  show ?thesis by (simp add: expand_object_no_keys [OF assms(4)])
qed

theorem empty_object_expansion_fails_witness:
  "fst (expand_object_subfields demo_engine demo_empty_objects ''PAYLOAD'')
           = Inl (ValueError ''not enough values to unpack (expected 2, got 0)'')
   \<and> map_option fst
       (snowpark_main_handler (Suc 0) demo_engine [(''SRC'', demo_empty_objects)] [] ''SRC'' ''OUT''
          100 [] [])
     = Some (Inl (ValueError ''not enough values to unpack (expected 2, got 0)''))"
proof -
  have s: "sampled_values demo_engine demo_empty_objects ''PAYLOAD'' = [VObj []]" by code_simp
  have k: "subfield_keys demo_engine demo_empty_objects ''PAYLOAD'' = []" by code_simp
  have o: "set_order demo_engine (cur_unprocessed_fields demo_empty_objects {}) = [''ID''] @ ''PAYLOAD'' # []"
    by code_simp
  have p: "\<forall>c \<in> set [''ID'']. to_unpack_cur_field_dtypes demo_engine demo_empty_objects c = []"
    by code_simp
  have m: "map_of [(''SRC'', demo_empty_objects)] ''SRC'' = Some demo_empty_objects" by simp
  show ?thesis
    using empty_object_expansion_fails [OF engine_ok_demo _ _ k o p _ m, of 100 0 "[]" "''OUT''" "[]" "[]"] s
    by simp
qed

subsection \<open>Object expansion\<close>

lemma df_collect_replace_columns:
  assumes "length names = length vals"
  shows "df_collect (df_replace_columns names vals df) =
           map (\<lambda>look c. case map_of (zip names vals) c of Some e \<Rightarrow> e look | None \<Rightarrow> look c)
             (df_collect df)"
proof -
  let ?A = "map (\<lambda>n. (n, col n)) (filter (\<lambda>c. c \<notin> set names) (columns df))"
  have dom: "(map_of (zip names vals) c = None) = (c \<notin> set names)" for c
  proof -
    have "fst ` set (zip names vals) = set names"
      using assms by (metis map_fst_zip set_map)
    then show ?thesis by (simp add: map_of_eq_None_iff)
  qed
  have "(case map_of (?A @ zip names vals) c of Some e \<Rightarrow> e (cell (columns df) r) | None \<Rightarrow> VNull)
        = (case map_of (zip names vals) c of Some e \<Rightarrow> e (cell (columns df) r)
           | None \<Rightarrow> cell (columns df) r c)" for c r
    using dom [of c]
    by (cases "map_of (zip names vals) c")
       (auto simp: map_add_def map_of_col_names col_def cell_not_column split: option.splits)
  then have "(\<lambda>c. case map_of (?A @ zip names vals) c of Some e \<Rightarrow> e (cell (columns df) r) | None \<Rightarrow> VNull)
        = (\<lambda>c. case map_of (zip names vals) c of Some e \<Rightarrow> e (cell (columns df) r)
           | None \<Rightarrow> cell (columns df) r c)" for r
    by (rule ext)
  then show ?thesis
    by (simp add: df_replace_columns_def df_collect_select) (simp add: df_collect_def)
qed

lemma df_count_collect: "df_count df = length (df_collect df)"
  by (simp add: df_count_def df_collect_def)

lemma quote_name_shape:
  assumes "quote_name n = Inr q"
  shows "q = CHR 0x22 # butlast (tl q) @ [CHR 0x22]"
proof (cases "already_quoted n")
  case True
  with assms have qn: "q = n"
    by (auto simp: quote_name_def validate_quoted_name_def split: if_splits)
  from True have n: "3 \<le> length n" "hd n = CHR 0x22" "last n = CHR 0x22"
    by (simp_all add: already_quoted_def)
  then obtain c cs where ncs: "n = c # cs" by (cases n) auto
  with n have ne: "cs \<noteq> []" by auto
  with n ncs have cs: "cs \<noteq> []" "c = CHR 0x22" "last cs = CHR 0x22" by simp_all
  then have "cs = butlast cs @ [CHR 0x22]" by (metis append_butlast_last_id)
  with cs ncs qn show ?thesis by simp
next
  case False
  with assms show ?thesis
    by (auto simp: quote_name_def butlast_append split: if_splits)
qed

lemma strip_unnecessary_quotes_inj:
  assumes "quote_name n = Inr q" "quote_name n' = Inr q'"
    and "strip_unnecessary_quotes q = strip_unnecessary_quotes q'"
  shows "q = q'"
proof -
  let ?i = "butlast (tl q)" and ?i' = "butlast (tl q')"
  note s = quote_name_shape [OF assms(1)] and s' = quote_name_shape [OF assms(2)]
  have plain: "hd i \<noteq> CHR 0x22" "i \<noteq> []" if "upper_identifier i \<or> dollar_digits i" for i
    using that by (auto simp: upper_identifier_def dollar_digits_def)
  consider (both) "upper_identifier ?i \<or> dollar_digits ?i" "upper_identifier ?i' \<or> dollar_digits ?i'"
    | (left) "upper_identifier ?i \<or> dollar_digits ?i" "\<not> (upper_identifier ?i' \<or> dollar_digits ?i')"
    | (right) "\<not> (upper_identifier ?i \<or> dollar_digits ?i)" "upper_identifier ?i' \<or> dollar_digits ?i'"
    | (none) "\<not> (upper_identifier ?i \<or> dollar_digits ?i)" "\<not> (upper_identifier ?i' \<or> dollar_digits ?i')"
    by blast
  then show ?thesis
  proof cases
    case both
    with assms(3) have "?i = ?i'" by (simp add: strip_unnecessary_quotes_def)
    with s s' show ?thesis by metis
  next
    case left
    with assms(3) have "?i = q'" by (simp add: strip_unnecessary_quotes_def)
    with plain(1) [OF left(1)] s' show ?thesis by (metis list.sel(1))
  next
    case right
    with assms(3) have "q = ?i'" by (simp add: strip_unnecessary_quotes_def)
    with plain(1) [OF right(2)] s show ?thesis by (metis list.sel(1))
  next
    case none
    with assms(3) show ?thesis by (simp add: strip_unnecessary_quotes_def)
  qed
qed

lemma df_with_columns_two:
  assumes "quote_name na = Inr qa" "quote_name nb = Inr qb"
  shows "df_with_columns [na, nb] [va, vb] df =
           (if qa = qb
            then Inl (ValueError
                   ''The same column name is used multiple times in the col_names parameter.'')
            else Inr (df_replace_columns
                        [strip_unnecessary_quotes qa, strip_unnecessary_quotes qb] [va, vb] df))"
  using assms by (simp add: df_with_columns_def)

text \<open>
  C5, as the program has it.  When the keys found for an object field are \<open>a\<close> and \<open>b\<close>, the
  names \<open>field__a\<close> and \<open>field__b\<close> are normalised by the client.  If the client refuses one
  of them, or if the two names are the same after normalisation (as for the keys \<open>a\<close> and
  \<open>A\<close>), the expansion raises and returns no frame.  Otherwise it returns a frame whose
  columns are the columns of the input that do not carry one of the two normalised names,
  followed by the two normalised names, which differ.  It has as many rows as the input; in
  each row the two columns hold the projections of the object and every other column holds
  what it held, so that a column of the input that already had one of the two names is
  replaced.  After the drop of the caller the object column is absent and the rest is as
  before.
\<close>

theorem expand_two_subfields:
  assumes "subfield_keys eng df obj_field = [a, b]"
  shows "case quote_name (obj_field @ ''__'' @ a) of
           Inl e \<Rightarrow> fst (expand_object_subfields eng df obj_field) = Inl e
         | Inr qa \<Rightarrow>
            (case quote_name (obj_field @ ''__'' @ b) of
               Inl e \<Rightarrow> fst (expand_object_subfields eng df obj_field) = Inl e
             | Inr qb \<Rightarrow>
                 if qa = qb
                 then fst (expand_object_subfields eng df obj_field)
                      = Inl (ValueError
                          ''The same column name is used multiple times in the col_names parameter.'')
                 else \<exists>df'. fst (expand_object_subfields eng df obj_field) = Inr df'
                   \<and> strip_unnecessary_quotes qa \<noteq> strip_unnecessary_quotes qb
                   \<and> columns df' =
                       filter (\<lambda>c. c \<notin> {strip_unnecessary_quotes qa, strip_unnecessary_quotes qb})
                         (columns df)
                       @ [strip_unnecessary_quotes qa, strip_unnecessary_quotes qb]
                   \<and> df_count df' = df_count df
                   \<and> df_collect df' =
                       map (\<lambda>look. look(strip_unnecessary_quotes qb := get_item (look obj_field) b,
                                        strip_unnecessary_quotes qa := get_item (look obj_field) a))
                         (df_collect df)
                   \<and> obj_field \<notin> set (columns (df_drop [obj_field] df'))
                   \<and> df_count (df_drop [obj_field] df') = df_count df
                   \<and> df_collect (df_drop [obj_field] df') =
                       map (\<lambda>look. look(strip_unnecessary_quotes qb := get_item (look obj_field) b,
                                        strip_unnecessary_quotes qa := get_item (look obj_field) a,
                                        obj_field := VNull))
                         (df_collect df))"
proof (cases "quote_name (obj_field @ ''__'' @ a)")
  case (Inl e)
  with assms show ?thesis
    by (simp add: expand_object_subfields_def df_with_columns_def)
next
  case qa: (Inr qa)
  show ?thesis
  proof (cases "quote_name (obj_field @ ''__'' @ b)")
    case (Inl e)
    with assms qa show ?thesis
      by (simp add: expand_object_subfields_def df_with_columns_def)
  next
    case qb: (Inr qb)
    let ?na = "strip_unnecessary_quotes qa" and ?nb = "strip_unnecessary_quotes qb"
    let ?va = "col_getitem (col obj_field) a" and ?vb = "col_getitem (col obj_field) b"
    have w: "df_with_columns [obj_field @ ''__'' @ a, obj_field @ ''__'' @ b] [?va, ?vb] df =
               (if qa = qb
                then Inl (ValueError
                       ''The same column name is used multiple times in the col_names parameter.'')
                else Inr (df_replace_columns [?na, ?nb] [?va, ?vb] df))"
      by (rule df_with_columns_two [OF qa qb])
    have ex: "fst (expand_object_subfields eng df obj_field) =
                (case df_with_columns [obj_field @ ''__'' @ a, obj_field @ ''__'' @ b] [?va, ?vb] df of
                   Inl e \<Rightarrow> Inl e
                 | Inr df' \<Rightarrow> Inr df')"
      using assms by (simp add: expand_object_subfields_def split: sum.splits)
    show ?thesis
    proof (cases "qa = qb")
      case True
      have "fst (expand_object_subfields eng df obj_field)
              = Inl (ValueError
                  ''The same column name is used multiple times in the col_names parameter.'')"
        unfolding ex w using True by simp
      with qa qb True show ?thesis by simp
    next
      case False
      define df' where "df' = df_replace_columns [?na, ?nb] [?va, ?vb] df"
      have ne: "?na \<noteq> ?nb"
        using strip_unnecessary_quotes_inj [OF qa qb] False by blast
      have e: "fst (expand_object_subfields eng df obj_field) = Inr df'"
        unfolding ex w df'_def using False by simp
      have c: "columns df' = filter (\<lambda>c. c \<notin> {?na, ?nb}) (columns df) @ [?na, ?nb]"
        by (simp add: df'_def)
      have f: "(\<lambda>c. case map_of (zip [?na, ?nb] [?va, ?vb]) c of Some e \<Rightarrow> e look | None \<Rightarrow> look c)
               = look(?nb := get_item (look obj_field) b, ?na := get_item (look obj_field) a)" for look
        by (rule ext) (simp add: col_getitem_def col_def)
      have r: "df_collect df' =
                 map (\<lambda>look. look(?nb := get_item (look obj_field) b, ?na := get_item (look obj_field) a))
                   (df_collect df)"
      proof -
        have "df_collect df' =
                map (\<lambda>look c. case map_of (zip [?na, ?nb] [?va, ?vb]) c of Some e \<Rightarrow> e look | None \<Rightarrow> look c)
                  (df_collect df)"
          unfolding df'_def by (rule df_collect_replace_columns) simp
        then show ?thesis by (simp only: f)
      qed
      have g: "(\<lambda>c. if c \<in> set [obj_field] then VNull else look c) = look(obj_field := VNull)"
        for look :: "string \<Rightarrow> val"
        by (rule ext) simp
      have d: "df_collect (df_drop [obj_field] df') =
                 map (\<lambda>look. look(?nb := get_item (look obj_field) b, ?na := get_item (look obj_field) a,
                                  obj_field := VNull)) (df_collect df)"
        by (simp only: df_collect_drop g r map_map comp_def)
      have "\<exists>df'. fst (expand_object_subfields eng df obj_field) = Inr df'
                   \<and> ?na \<noteq> ?nb
                   \<and> columns df' = filter (\<lambda>c. c \<notin> {?na, ?nb}) (columns df) @ [?na, ?nb]
                   \<and> df_count df' = df_count df
                   \<and> df_collect df' =
                       map (\<lambda>look. look(?nb := get_item (look obj_field) b,
                                        ?na := get_item (look obj_field) a))
                         (df_collect df)
                   \<and> obj_field \<notin> set (columns (df_drop [obj_field] df'))
                   \<and> df_count (df_drop [obj_field] df') = df_count df
                   \<and> df_collect (df_drop [obj_field] df') =
                       map (\<lambda>look. look(?nb := get_item (look obj_field) b,
                                        ?na := get_item (look obj_field) a,
                                        obj_field := VNull))
                         (df_collect df)"
        apply (intro exI [of _ df'] conjI)
               apply (rule e)
              apply (rule ne)
             apply (rule c)
            apply (simp add: df_count_collect r)
           apply (rule r)
          apply simp
         apply (simp add: df_count_collect d)
        apply (rule d)
        done
      with qa qb False show ?thesis by simp
    qed
  qed
qed

theorem expand_two_subfields_witness:
  "\<exists>df'. fst (expand_object_subfields demo_engine demo_customers ''ADDR'') = Inr df'
         \<and> columns df' = [''ID'', ''ADDR'', ''ADDR__CITY'', ''ADDR__ZIP'']
         \<and> df_count df' = 2
         \<and> columns (df_drop [''ADDR''] df') = [''ID'', ''ADDR__CITY'', ''ADDR__ZIP'']"
proof -
  have k: "subfield_keys demo_engine demo_customers ''ADDR'' = [''city'', ''zip'']"
    by code_simp
  have qa: "quote_name (''ADDR'' @ ''__'' @ ''city'') = Inr (CHR 0x22 # ''ADDR__CITY'' @ [CHR 0x22])"
    by code_simp
  have qb: "quote_name (''ADDR'' @ ''__'' @ ''zip'') = Inr (CHR 0x22 # ''ADDR__ZIP'' @ [CHR 0x22])"
    by code_simp
  have sa: "strip_unnecessary_quotes (CHR 0x22 # ''ADDR__CITY'' @ [CHR 0x22]) = ''ADDR__CITY''"
    by code_simp
  have sb: "strip_unnecessary_quotes (CHR 0x22 # ''ADDR__ZIP'' @ [CHR 0x22]) = ''ADDR__ZIP''"
    by code_simp
  from expand_two_subfields [OF k] obtain df' where
    "fst (expand_object_subfields demo_engine demo_customers ''ADDR'') = Inr df'"
    "columns df' =
       filter (\<lambda>c. c \<notin> {''ADDR__CITY'', ''ADDR__ZIP''}) (columns demo_customers)
         @ [''ADDR__CITY'', ''ADDR__ZIP'']"
    "df_count df' = df_count demo_customers"
    unfolding qa qb sum.case sa sb by auto
  then show ?thesis
    by (intro exI [of _ df']) (simp add: demo_customers_def df_count_def)
qed

text \<open>C5 as stated fails in two ways.  For an object with the keys \<open>a\<close> and \<open>A\<close> the names
  \<open>PAYLOAD__a\<close> and \<open>PAYLOAD__A\<close> are the same column name for the client, so the expansion
  raises ValueError and yields no column.  Where the frame already has a column \<open>field__a\<close>,
  the expansion adds one new column, not two, and the column that was there before is not left
  unchanged (it held the string \<open>kept?\<close> and holds the projection afterwards).\<close>

theorem expand_two_subfields_counterexample:
  "fst (expand_object_subfields demo_engine
          \<lparr>columns = [''ID'', ''PAYLOAD''],
             rows = [[VNum 1, VObj [(''A'', VNum 2), (''a'', VNum 1)]]]\<rparr>
          ''PAYLOAD'')
   = Inl (ValueError ''The same column name is used multiple times in the col_names parameter.'')
   \<and> fst (expand_object_subfields demo_engine
          \<lparr>columns = [''ADDR'', ''ADDR__CITY''],
             rows = [[VObj [(''CITY'', VStr ''Oslo''), (''ZIP'', VNum 150)], VStr ''kept?'']]\<rparr>
          ''ADDR'')
   = Inr \<lparr>columns = [''ADDR'', ''ADDR__CITY'', ''ADDR__ZIP''],
            rows = [[VObj [(''CITY'', VStr ''Oslo''), (''ZIP'', VNum 150)], VStr ''Oslo'', VNum 150]]\<rparr>"
  by code_simp

subsection \<open>Frames without nested fields\<close>

lemma cur_unprocessed_subset: "set (cur_unprocessed_fields df P) \<subseteq> set (columns df) - P"
  by (auto simp: cur_unprocessed_fields_def)

lemma cur_unprocessed_done:
  "cur_unprocessed_fields df (P \<union> set (cur_unprocessed_fields df P)) = []"
  by (auto simp: cur_unprocessed_fields_def filter_empty_conv)

lemma flat_table_scalar:
  assumes "engine_ok eng" "flat_table df" "c \<in> set (columns df)"
  shows "to_unpack_cur_field_dtypes eng df c = []"
proof (rule to_unpack_scalar [OF assms(1)], rule ballI)
  fix v assume "v \<in> set (sampled_values eng df c)"
  then obtain r where "r \<in> set (rows df)" "v = cell (columns df) r c"
    using sampled_values_subset [OF assms(1), of df c] by auto
  with assms(2,3) show "\<not> is_array v \<and> \<not> is_object v"
    by (auto simp: flat_table_def list_all_iff)
qed

lemma model_terminal:
  assumes "cur_unprocessed_fields df (processed_fields st) = []"
  shows "model_nested_JSON_objects (Suc fuel) eng cfg df parent_path counter st =
           Some (None, add_log [LogCallStart (counter + 1) (df_count df) (processed_fields st),
                                LogTerminated (counter + 1)] st)"
  using assms by (simp add: Let_def add_log_def)

lemma model_all_scalar:
  assumes ok: "engine_ok eng"
    and sc: "\<forall>c \<in> set (cur_unprocessed_fields df (processed_fields st)).
               to_unpack_cur_field_dtypes eng df c = []"
    and ne: "cur_unprocessed_fields df (processed_fields st) \<noteq> []"
    and cap: "counter + 1 \<noteq> max_recursive_calls cfg"
  shows "\<exists>st'. model_nested_JSON_objects (Suc (Suc fuel)) eng cfg df parent_path counter st
                 = Some (None, st')
               \<and> globals st' = dict_set (result_key cfg parent_path) df (globals st)
               \<and> processed_fields st' =
                   processed_fields st \<union> set (cur_unprocessed_fields df (processed_fields st))"
proof -
  let ?U = "cur_unprocessed_fields df (processed_fields st)"
  let ?st1 = "add_log [LogCallStart (counter + 1) (df_count df) (processed_fields st)] st"
  have su: "set (set_order eng ?U) = set ?U" by (rule engine_ok_set_order(1) [OF ok])
  have "\<forall>c \<in> set (set_order eng ?U). to_unpack_cur_field_dtypes eng df c = []"
    using sc su by simp
  from process_fields_scalars [OF this, of "[]" "[]" ?st1] obtain st2 where st2:
    "process_fields eng (set_order eng ?U) df [] ?st1 = (None, df, [], st2)"
    "processed_fields st2 = processed_fields st \<union> set ?U"
    "globals st2 = globals st"
    by (auto simp: su add_log_def)
  let ?st3 = "st2\<lparr>globals := dict_set (result_key cfg parent_path) df (globals st2)\<rparr>"
  have t: "cur_unprocessed_fields df (processed_fields ?st3) = []"
    using st2(2) by (simp add: cur_unprocessed_done)
  have "model_nested_JSON_objects (Suc (Suc fuel)) eng cfg df parent_path counter st
          = Some (None, add_log [LogCallStart (counter + 1 + 1) (df_count df) (processed_fields ?st3),
                                 LogTerminated (counter + 1 + 1)] ?st3)"
    using ne cap st2(1) model_terminal [OF t, of fuel eng cfg parent_path "counter + 1"]
    by (simp add: Let_def add_log_def del: model_nested_JSON_objects.simps(2))
       (simp add: Let_def add_log_def)
  then show ?thesis
    using st2(2,3) by (simp add: add_log_def)
qed


lemma map_of_dict_set: "map_of (dict_set k v d) k' = (if k' = k then Some v else map_of d k')"
  by (induction d) auto

lemma dict_set_idem: "dict_set k v (dict_set k v d) = dict_set k v d"
  by (induction d) auto

lemma handler_returns:
  assumes "map_of tabs input_relation = Some df"
    and "model_nested_JSON_objects fuel eng
           \<lparr>max_recursive_calls = max_calls, output_table_prefix = prefix,
              output_table_suffix = suffix\<rparr> df ''ENTRY'' 0
           \<lparr>processed_fields = {}, globals = g, log = []\<rparr> = Some (None, st)"
  shows "snowpark_main_handler fuel eng tabs g input_relation output_schema max_calls prefix suffix
           = Some (Inr (collect_results (globals st)),
                   save_results output_schema (collect_results (globals st)) tabs,
                   add_log (map (\<lambda>item. LogResult (fst item)) (collect_results (globals st))) st)"
  using assms by (simp add: snowpark_main_handler_def Let_def)

lemma collect_results_entry:
  "collect_results [(''INTERNAL_RESULT_ENTRY'', df)] = [(''ENTRY'', df)]"
  by (simp add: collect_results_def)

lemma flat_handler:
  assumes "engine_ok eng" "flat_table df" "\<exists>c \<in> set (columns df). \<not> is_bookkeeping c"
    and "max_calls \<noteq> 1" "map_of tabs input_relation = Some df"
    and "g = [] \<or> g = [(''INTERNAL_RESULT_ENTRY'', df)]"
  shows "\<exists>st. snowpark_main_handler (Suc (Suc fuel)) eng tabs g input_relation output_schema
                 max_calls [] []
               = Some (Inr [(''ENTRY'', df)], save_as_table (output_schema @ ''.ENTRY'') df tabs, st)
             \<and> globals st = [(''INTERNAL_RESULT_ENTRY'', df)]"
proof -
  let ?cfg = "\<lparr>max_recursive_calls = max_calls, output_table_prefix = [],
                output_table_suffix = []\<rparr>"
  let ?st0 = "\<lparr>processed_fields = {}, globals = g, log = []\<rparr>"
  have U: "set (cur_unprocessed_fields df (processed_fields ?st0)) \<subseteq> set (columns df)"
    using cur_unprocessed_subset [of df "{}"] by auto
  have sc: "\<forall>c \<in> set (cur_unprocessed_fields df (processed_fields ?st0)).
              to_unpack_cur_field_dtypes eng df c = []"
    using U flat_table_scalar [OF assms(1,2)] by blast
  have ne: "cur_unprocessed_fields df (processed_fields ?st0) \<noteq> []"
    using assms(3) by (auto simp: cur_unprocessed_fields_def filter_empty_conv)
  have cap: "0 + 1 \<noteq> max_recursive_calls ?cfg" using assms(4) by simp
  from model_all_scalar [OF assms(1) sc ne cap, of fuel "''ENTRY''"] obtain st' where st':
    "model_nested_JSON_objects (Suc (Suc fuel)) eng ?cfg df ''ENTRY'' 0 ?st0 = Some (None, st')"
    "globals st' = dict_set (result_key ?cfg ''ENTRY'') df (globals ?st0)"
    by blast
  have g: "globals st' = [(''INTERNAL_RESULT_ENTRY'', df)]"
    using st'(2) assms(6) by (auto simp: result_key_def)
  show ?thesis
    using handler_returns [OF assms(5) st'(1), of output_schema] g
    by (simp add: collect_results_entry save_results_def add_log_def)
qed

text \<open>
  C7, as the program has it.  Take a frame in which no column holds an array or an object and
  which has at least one column that is not a bookkeeping column, a depth cap other than 1,
  the default prefix and suffix, and a process in which no earlier run left a result.  With
  two levels of calls the handler returns the dictionary that holds exactly the input frame,
  unchanged, under the name ENTRY, and saves it as \<open>output_schema.ENTRY\<close>.  Running the handler
  again on that saved table, in the same process, returns the same dictionary and leaves the
  tables as they are.
\<close>

theorem flat_table_single_terminal:
  assumes "engine_ok eng" "flat_table df" "\<exists>c \<in> set (columns df). \<not> is_bookkeeping c"
    and "max_calls \<noteq> 1" "map_of tabs input_relation = Some df"
  shows "\<exists>st1. snowpark_main_handler (Suc (Suc fuel)) eng tabs [] input_relation output_schema
                  max_calls [] []
                = Some (Inr [(''ENTRY'', df)], save_as_table (output_schema @ ''.ENTRY'') df tabs, st1)
           \<and> (\<exists>st2. snowpark_main_handler (Suc (Suc fuel)) eng
                        (save_as_table (output_schema @ ''.ENTRY'') df tabs) (globals st1)
                        (output_schema @ ''.ENTRY'') output_schema max_calls [] []
                      = Some (Inr [(''ENTRY'', df)],
                              save_as_table (output_schema @ ''.ENTRY'') df tabs, st2))"
proof -
  let ?tabs1 = "save_as_table (output_schema @ ''.ENTRY'') df tabs"
  from flat_handler [OF assms, of "[]" fuel output_schema] obtain st1 where st1:
    "snowpark_main_handler (Suc (Suc fuel)) eng tabs [] input_relation output_schema max_calls [] []
       = Some (Inr [(''ENTRY'', df)], ?tabs1, st1)"
    "globals st1 = [(''INTERNAL_RESULT_ENTRY'', df)]"
    by auto
  have m: "map_of ?tabs1 (output_schema @ ''.ENTRY'') = Some df"
    by (simp add: save_as_table_def map_of_dict_set)
  from flat_handler [OF assms(1-4) m, of "globals st1" fuel output_schema] st1(2) obtain st2 where
    "snowpark_main_handler (Suc (Suc fuel)) eng ?tabs1 (globals st1) (output_schema @ ''.ENTRY'')
       output_schema max_calls [] []
       = Some (Inr [(''ENTRY'', df)], save_as_table (output_schema @ ''.ENTRY'') df ?tabs1, st2)"
    by auto
  then show ?thesis
    using st1(1) by (auto simp: save_as_table_def dict_set_idem)
qed

theorem flat_table_single_terminal_witness:
  "\<exists>st1. snowpark_main_handler (Suc (Suc 0)) demo_engine [(''SRC'', demo_flat)] [] ''SRC'' ''OUT''
            100 [] []
          = Some (Inr [(''ENTRY'', demo_flat)],
                  [(''SRC'', demo_flat), (''OUT.ENTRY'', demo_flat)], st1)"
proof -
  have f: "flat_table demo_flat" by code_simp
  have b: "\<exists>c \<in> set (columns demo_flat). \<not> is_bookkeeping c" by code_simp
  have m: "map_of [(''SRC'', demo_flat)] ''SRC'' = Some demo_flat" by simp
  have c: "(100::int) \<noteq> 1" by simp
  from flat_table_single_terminal [OF engine_ok_demo f b c m, of 0 "''OUT''"]
  show ?thesis by (auto simp: save_as_table_def)
qed

text \<open>C7 as stated fails for a frame whose columns are all bookkeeping columns: the first
  call is then the terminal one and records nothing, and the dictionary is empty.\<close>

theorem flat_table_single_terminal_counterexample:
  "map_option fst
     (snowpark_main_handler 5 demo_engine
        [(''SRC'', \<lparr>columns = [''LOAD_SHA256''], rows = [[VStr ''ab12''], [VStr ''cd34'']]\<rparr>)]
        [] ''SRC'' ''OUT'' 100 [] [])
   = Some (Inr [])"
  by code_simp

subsection \<open>A root frame with one array field\<close>

lemma str_replace_absent:
  assumes "old \<noteq> []"
  shows "\<not> str_contains old s \<Longrightarrow> str_replace old new s = s"
  using assms by (induction s) auto

lemma str_replace_at_prefix:
  assumes "old \<noteq> []"
  shows "str_replace old new (old @ s) = new @ str_replace old new s"
proof (cases "old @ s")
  case Nil
  with assms show ?thesis by simp
next
  case (Cons c cs)
  have "take (length old) (c # cs) = old" "drop (length old) (c # cs) = s"
    using Cons [symmetric] by simp_all
  then show ?thesis using assms Cons by (simp del: take_Suc_Cons drop_Suc_Cons)
qed

lemma str_contains_prefix: "str_contains sub (sub @ s)"
proof (cases "sub @ s")
  case Nil
  then show ?thesis by simp
next
  case (Cons c cs)
  have "take (length sub) (c # cs) = sub" using Cons [symmetric] by simp
  then show ?thesis using Cons by (simp del: take_Suc_Cons)
qed

lemma marker_key_contains: "str_contains ''INTERNAL_RESULT'' (''INTERNAL_RESULT_'' @ name)"
proof -
  have "str_contains ''INTERNAL_RESULT'' (''INTERNAL_RESULT'' @ (''_'' @ name))"
    by (rule str_contains_prefix)
  then show ?thesis by simp
qed

lemma marker_key_replace:
  assumes "\<not> str_contains ''INTERNAL_RESULT_'' name"
  shows "str_replace ''INTERNAL_RESULT_'' [] (''INTERNAL_RESULT_'' @ name) = name"
proof -
  have ne: "''INTERNAL_RESULT_'' \<noteq> []" by simp
  show ?thesis
    using str_replace_at_prefix [OF ne, of "[]" name] str_replace_absent [OF ne assms, of "[]"]
    by (simp only: append_Nil)
qed


lemma processed_fields_add_log [simp]: "processed_fields (add_log evs st) = processed_fields st"
  by (simp add: add_log_def)

lemma globals_add_log [simp]: "globals (add_log evs st) = globals st"
  by (simp add: add_log_def)

lemma log_add_log [simp]: "log (add_log evs st) = log st @ evs"
  by (simp add: add_log_def)

lemma to_unpack_scalar_collect:
  assumes "engine_ok eng"
    and "\<forall>look \<in> set (df_collect df). \<not> is_array (look c) \<and> \<not> is_object (look c)"
  shows "to_unpack_cur_field_dtypes eng df c = []"
proof (rule to_unpack_scalar [OF assms(1)], rule ballI)
  fix v assume "v \<in> set (sampled_values eng df c)"
  then obtain r where "r \<in> set (rows df)" "v = cell (columns df) r c"
    using sampled_values_subset [OF assms(1), of df c] by auto
  with assms(2) show "\<not> is_array v \<and> \<not> is_object v"
    by (auto simp: df_collect_def)
qed

lemma sampled_values_nonempty:
  assumes "engine_ok eng" "rows df \<noteq> []"
  shows "sampled_values eng df c \<noteq> []"
proof -
  let ?L = "remdups (map (\<lambda>r. [cell (columns df) r c]) (rows df))"
  have "?L \<noteq> []" using assms(2) by (cases "rows df") auto
  then have "row_order eng ?L \<noteq> []"
    using engine_ok_row_order(3) [OF assms(1), of ?L] by auto
  then have "take detect_dtype_from_first (row_order eng ?L) \<noteq> []"
    by (simp add: detect_dtype_from_first_def)
  then show ?thesis
    by (simp add: sampled_values_def df_collect_def df_limit_def df_distinct_def df_select_def
          cast_variant_def col_def)
qed

lemma to_unpack_array_collect:
  assumes "engine_ok eng" "rows df \<noteq> []"
    and "\<forall>look \<in> set (df_collect df). is_array (look c)"
  shows "to_unpack_cur_field_dtypes eng df c = [cell [''TYPEOF''] [VStr ''ARRAY'']]"
proof (rule to_unpack_array [OF assms(1)])
  have sub: "\<forall>v \<in> set (sampled_values eng df c). is_array v"
  proof
    fix v assume "v \<in> set (sampled_values eng df c)"
    then obtain r where "r \<in> set (rows df)" "v = cell (columns df) r c"
      using sampled_values_subset [OF assms(1), of df c] by auto
    with assms(3) show "is_array v" by (auto simp: df_collect_def)
  qed
  obtain v where "v \<in> set (sampled_values eng df c)"
    using sampled_values_nonempty [OF assms(1,2), of c] by (cases "sampled_values eng df c") auto
  with sub show "\<exists>v \<in> set (sampled_values eng df c). is_array v" by blast
  show "\<forall>v \<in> set (sampled_values eng df c). \<not> is_object v"
  proof
    fix v assume "v \<in> set (sampled_values eng df c)"
    with sub have "is_array v" by blast
    then show "\<not> is_object v" by (cases v) simp_all
  qed
qed

lemma process_fields_one_array:
  assumes pre: "\<forall>c \<in> set pre. to_unpack_cur_field_dtypes eng df c = []"
    and arr: "to_unpack_cur_field_dtypes eng df f = [cell [''TYPEOF''] [VStr ''ARRAY'']]"
    and post: "\<forall>c \<in> set post. to_unpack_cur_field_dtypes eng
                 (df_drop [f] (df_with_column (f @ ''_SHA256'') (sha2_cast_string eng (col f)) df)) c = []"
  shows "\<exists>st'. process_fields eng (pre @ f # post) df [] st =
                 (None, df_drop [f] (df_with_column (f @ ''_SHA256'') (sha2_cast_string eng (col f)) df),
                  [(f, fst (flatten_array eng
                              (df_with_column (f @ ''_SHA256'') (sha2_cast_string eng (col f)) df) f))],
                  st')
               \<and> processed_fields st' = processed_fields st \<union> set pre \<union> set post
               \<and> globals st' = globals st"
proof -
  let ?df1 = "df_with_column (f @ ''_SHA256'') (sha2_cast_string eng (col f)) df"
  from process_fields_scalars [OF pre, of "f # post" "[]" st] obtain st1 where st1:
    "process_fields eng (pre @ f # post) df [] st = process_fields eng (f # post) df [] st1"
    "processed_fields st1 = processed_fields st \<union> set pre" "globals st1 = globals st"
    by blast
  let ?st2 = "st1\<lparr>log := log st1 @ [LogCurrentField f, LogDtype f (VStr ''ARRAY'')]
                                @ snd (flatten_array eng ?df1 f)\<rparr>"
  have step: "process_fields eng (f # post) df [] st1 =
                process_fields eng post (df_drop [f] ?df1) [(f, fst (flatten_array eng ?df1 f))] ?st2"
    by (simp add: process_field_array [OF arr] Let_def)
  from process_fields_scalars [OF post, of "[]" "[(f, fst (flatten_array eng ?df1 f))]" ?st2]
  obtain st3 where st3:
    "process_fields eng post (df_drop [f] ?df1) [(f, fst (flatten_array eng ?df1 f))] ?st2
       = (None, df_drop [f] ?df1, [(f, fst (flatten_array eng ?df1 f))], st3)"
    "processed_fields st3 = processed_fields ?st2 \<union> set post" "globals st3 = globals ?st2"
    by auto
  show ?thesis
    using st1 step st3 by (intro exI [of _ st3]) simp
qed

lemma model_one_array:
  assumes ok: "engine_ok eng"
    and order: "set_order eng (cur_unprocessed_fields df (processed_fields st)) = pre @ f # post"
    and pre: "\<forall>c \<in> set pre. to_unpack_cur_field_dtypes eng df c = []"
    and arr: "to_unpack_cur_field_dtypes eng df f = [cell [''TYPEOF''] [VStr ''ARRAY'']]"
    and post: "\<forall>c \<in> set post. to_unpack_cur_field_dtypes eng
                 (df_drop [f] (df_with_column (f @ ''_SHA256'') (sha2_cast_string eng (col f)) df)) c = []"
    and cap1: "counter + 1 \<noteq> max_recursive_calls cfg"
    and cap2: "counter + 1 + 1 \<noteq> max_recursive_calls cfg"
    and root_done: "cur_unprocessed_fields
                      (df_drop [f] (df_with_column (f @ ''_SHA256'') (sha2_cast_string eng (col f)) df))
                      (processed_fields st \<union> set pre \<union> set post) = []"
    and child_ne: "cur_unprocessed_fields
                      (fst (flatten_array eng
                              (df_with_column (f @ ''_SHA256'') (sha2_cast_string eng (col f)) df) f))
                      (processed_fields st \<union> set pre \<union> set post) \<noteq> []"
    and child_sc: "\<forall>c \<in> set (cur_unprocessed_fields
                      (fst (flatten_array eng
                              (df_with_column (f @ ''_SHA256'') (sha2_cast_string eng (col f)) df) f))
                      (processed_fields st \<union> set pre \<union> set post)).
                    to_unpack_cur_field_dtypes eng
                      (fst (flatten_array eng
                              (df_with_column (f @ ''_SHA256'') (sha2_cast_string eng (col f)) df) f)) c = []"
  shows "\<exists>st'. model_nested_JSON_objects (Suc (Suc (Suc fuel))) eng cfg df parent_path counter st
                 = Some (None, st')
               \<and> globals st' =
                   dict_set (result_key cfg f)
                     (fst (flatten_array eng
                             (df_with_column (f @ ''_SHA256'') (sha2_cast_string eng (col f)) df) f))
                     (dict_set (result_key cfg parent_path)
                        (df_drop [f] (df_with_column (f @ ''_SHA256'') (sha2_cast_string eng (col f)) df))
                        (globals st))"
proof -
  let ?df1 = "df_with_column (f @ ''_SHA256'') (sha2_cast_string eng (col f)) df"
  let ?root = "df_drop [f] ?df1"
  let ?child = "fst (flatten_array eng ?df1 f)"
  let ?P = "processed_fields st \<union> set pre \<union> set post"
  let ?st1 = "add_log [LogCallStart (counter + 1) (df_count df) (processed_fields st)] st"
  have ne: "cur_unprocessed_fields df (processed_fields st) \<noteq> []"
  proof
    assume "cur_unprocessed_fields df (processed_fields st) = []"
    then have "set (set_order eng (cur_unprocessed_fields df (processed_fields st))) = {}"
      by (simp add: engine_ok_set_order(1) [OF ok])
    with order show False by simp
  qed
  from process_fields_one_array [OF pre arr post, of ?st1] obtain st2 where st2:
    "process_fields eng (pre @ f # post) df [] ?st1 = (None, ?root, [(f, ?child)], st2)"
    "processed_fields st2 = ?P" "globals st2 = globals st"
    by (auto simp: add_log_def)
  let ?st3 = "st2\<lparr>globals := dict_set (result_key cfg parent_path) ?root (globals st2)\<rparr>"
  let ?st4 = "add_log [LogCallStart (counter + 1 + 1) (df_count ?root) (processed_fields ?st3),
                       LogTerminated (counter + 1 + 1)] ?st3"
  have t: "cur_unprocessed_fields ?root (processed_fields ?st3) = []"
    using root_done st2(2) by simp
  have inner: "model_nested_JSON_objects (Suc (Suc fuel)) eng cfg ?root parent_path (counter + 1) ?st3
                 = Some (None, ?st4)"
    by (rule model_terminal [OF t])
  let ?st5 = "add_log [LogProcessNewDf f] ?st4"
  have p5: "processed_fields ?st5 = ?P" using st2(2) by (simp add: add_log_def)
  have cne: "cur_unprocessed_fields ?child (processed_fields ?st5) \<noteq> []"
    using child_ne p5 by simp
  have csc: "\<forall>c \<in> set (cur_unprocessed_fields ?child (processed_fields ?st5)).
               to_unpack_cur_field_dtypes eng ?child c = []"
    using child_sc p5 by simp
  from model_all_scalar [OF ok csc cne cap2, of fuel f] obtain st6 where st6:
    "model_nested_JSON_objects (Suc (Suc fuel)) eng cfg ?child f (counter + 1) ?st5 = Some (None, st6)"
    "globals st6 = dict_set (result_key cfg f) ?child (globals ?st5)"
    by blast
  have "model_nested_JSON_objects (Suc (Suc (Suc fuel))) eng cfg df parent_path counter st
          = Some (None, st6)"
    apply (subst model_nested_JSON_objects.simps(2))
    using ne cap1 order st2(1) inner st6(1)
    by (simp add: Let_def del: model_nested_JSON_objects.simps(2))
  then show ?thesis
    using st6(2) st2(3) by (simp add: add_log_def)
qed

lemma is_scalar_iff: "is_scalar v = (\<not> is_array v \<and> \<not> is_object v)"
  by (cases v) simp_all

lemma str_contains_middle: "str_contains sub (p @ sub @ q)"
proof (induction p)
  case Nil
  show ?case by (simp add: str_contains_prefix)
next
  case (Cons c p)
  then show ?case by (simp del: take_Suc_Cons)
qed

lemma hash_field_bookkeeping: "is_bookkeeping (f @ ''_SHA256'')"
proof -
  have "str_contains ''SHA256'' ((f @ ''_'') @ ''SHA256'' @ [])" by (rule str_contains_middle)
  then show ?thesis by (simp add: is_bookkeeping_def)
qed

lemma single_array_field_cells:
  assumes "single_array_field df f" "look \<in> set (df_collect df)"
  shows "array_of_scalars (look f)"
    and "c \<noteq> f \<Longrightarrow> is_scalar (look c)"
proof -
  from assms(2) obtain r where r: "r \<in> set (rows df)" "look = cell (columns df) r"
    by (auto simp: df_collect_def)
  from assms(1) r show "array_of_scalars (look f)"
    by (auto simp: single_array_field_def list_all_iff)
  show "is_scalar (look c)" if "c \<noteq> f"
  proof (cases "c \<in> set (columns df)")
    case True
    with assms(1) r that show ?thesis
      by (auto simp: single_array_field_def list_all_iff)
  next
    case False
    then show ?thesis using r by (simp add: cell_not_column)
  qed
qed

lemma single_array_field_column:
  assumes "single_array_field df f"
  shows "f \<in> set (columns df)"
proof (rule ccontr)
  assume n: "f \<notin> set (columns df)"
  from assms obtain r where "r \<in> set (rows df)"
    by (cases "rows df") (auto simp: single_array_field_def)
  with assms have "array_of_scalars (cell (columns df) r f)"
    by (auto simp: single_array_field_def list_all_iff)
  then show False using n by (simp add: cell_not_column)
qed

lemma root_collect:
  "df_collect (df_drop [f] (df_with_column hf e df)) =
     map (\<lambda>look. (look(hf := e look))(f := VNull)) (df_collect df)"
proof -
  have g: "(\<lambda>c. if c \<in> set [f] then VNull else look c) = look(f := VNull)"
    for look :: "string \<Rightarrow> val"
    by (rule ext) simp
  show ?thesis
    by (simp only: df_collect_drop df_collect_with_column g map_map comp_def)
qed


lemma exploded_elements_scalar:
  assumes "array_of_scalars v" "e \<in> set (exploded_elements v)"
  shows "is_scalar e"
proof (cases v)
  case (VArr xs)
  with assms show ?thesis by (cases xs) (auto simp: list_all_iff)
qed (use assms in simp_all)

lemma child_collect_scalar:
  assumes ok: "engine_ok eng" and one: "single_array_field df f" and nf: "f \<notin> set FLATTEN_COLS"
    and lk: "look \<in> set (df_collect (fst (flatten_array eng
               (df_with_column (f @ ''_SHA256'') (sha2_cast_string eng (col f)) df) f)))"
  shows "is_scalar (look f)"
proof -
  let ?hf = "f @ ''_SHA256''"
  let ?df1 = "df_with_column ?hf (sha2_cast_string eng (col f)) df"
  let ?u = "df_distinct eng (df_select_names [?hf, f] ?df1)"
  have child: "fst (flatten_array eng ?df1 f) = \<lparr>columns = [?hf, f], rows = spec_child_rows f (rows ?u)\<rparr>"
    by (rule flatten_array_child [OF nf])
  from lk obtain row where row: "row \<in> set (spec_child_rows f (rows ?u))" "look = cell [?hf, f] row"
    by (auto simp: child df_collect_def)
  from row(1) obtain p e where p: "p \<in> set (rows ?u)"
    and e: "e \<in> set (exploded_elements (cell [?hf, f] p f))"
    and r: "row = [cell [?hf, f] p ?hf, e]"
    by (auto simp: spec_child_rows_def)
  have lf: "look f = e" using row(2) r by (simp add: cell_def)
  from p obtain look1 where l1: "look1 \<in> set (df_collect ?df1)" "p = [look1 ?hf, look1 f]"
    by (auto simp: df_distinct_def engine_ok_row_order(1) [OF ok] rows_select_names_collect)
  from l1(1) obtain look0 where l0: "look0 \<in> set (df_collect df)" "look1 f = look0 f"
    by (auto simp: df_collect_with_column)
  have "cell [?hf, f] p f = look0 f" using l1(2) l0(2) by (simp add: cell_def)
  with e single_array_field_cells(1) [OF one l0(1)] have "is_scalar e"
    by (auto intro: exploded_elements_scalar)
  with lf show ?thesis by simp
qed


lemma collect_results_two:
  assumes "\<not> str_contains ''INTERNAL_RESULT_'' k1" "\<not> str_contains ''INTERNAL_RESULT_'' k2" "k1 \<noteq> k2"
  shows "collect_results [(''INTERNAL_RESULT_'' @ k1, v1), (''INTERNAL_RESULT_'' @ k2, v2)]
           = [(k1, v1), (k2, v2)]"
  using assms marker_key_contains [of k1] marker_key_contains [of k2]
    marker_key_replace [of k1] marker_key_replace [of k2]
  by (simp add: collect_results_def del: str_contains.simps str_replace.simps append_Cons)

text \<open>
  C8, as the program has it.  Take a root frame with rows in which the field \<open>f\<close> (ITEMS, say)
  holds arrays of scalars and no other column is nested, a depth cap other than 1 and 2, and a
  process in which no earlier run left a result; \<open>f\<close> is not a bookkeeping column, not a column
  name of FLATTEN and not the name ENTRY, and the two table names do not contain the marker
  \<open>INTERNAL_RESULT_\<close>.  Then the handler returns exactly two tables: the root without the
  array field (and with its hash column) under \<open>prefix + ENTRY + suffix\<close>, and the exploded
  child under \<open>prefix + f + suffix\<close>.  Both are saved in the output schema under these names, in
  place of whatever the session held under them.
\<close>

theorem lineage_naming:
  assumes ok: "engine_ok eng"
    and one: "single_array_field df f"
    and nf: "f \<notin> set FLATTEN_COLS"
    and nb: "\<not> is_bookkeeping f"
    and ne: "f \<noteq> ''ENTRY''"
    and c1: "max_calls \<noteq> 1" and c2: "max_calls \<noteq> 2"
    and k1: "\<not> str_contains ''INTERNAL_RESULT_'' (prefix @ ''ENTRY'' @ suffix)"
    and k2: "\<not> str_contains ''INTERNAL_RESULT_'' (prefix @ f @ suffix)"
    and tab: "map_of tabs input_relation = Some df"
  shows "\<exists>st. snowpark_main_handler (Suc (Suc (Suc fuel))) eng tabs [] input_relation output_schema
                 max_calls prefix suffix
               = Some (Inr [(prefix @ ''ENTRY'' @ suffix,
                             df_drop [f] (df_with_column (f @ ''_SHA256'')
                                            (sha2_cast_string eng (col f)) df)),
                            (prefix @ f @ suffix,
                             fst (flatten_array eng
                                    (df_with_column (f @ ''_SHA256'')
                                       (sha2_cast_string eng (col f)) df) f))],
                       save_as_table (output_schema @ ''.'' @ prefix @ f @ suffix)
                         (fst (flatten_array eng
                                 (df_with_column (f @ ''_SHA256'')
                                    (sha2_cast_string eng (col f)) df) f))
                         (save_as_table (output_schema @ ''.'' @ prefix @ ''ENTRY'' @ suffix)
                            (df_drop [f] (df_with_column (f @ ''_SHA256'')
                                            (sha2_cast_string eng (col f)) df))
                            tabs),
                       st)"
proof -
  let ?hf = "f @ ''_SHA256''"
  let ?df1 = "df_with_column ?hf (sha2_cast_string eng (col f)) df"
  let ?root = "df_drop [f] ?df1"
  let ?child = "fst (flatten_array eng ?df1 f)"
  let ?cfg = "\<lparr>max_recursive_calls = max_calls, output_table_prefix = prefix,
                output_table_suffix = suffix\<rparr>"
  define st0 where "st0 = \<lparr>processed_fields = {}, globals = [], log = []\<rparr>"
  have p0: "processed_fields st0 = {}" "globals st0 = []" by (simp_all add: st0_def)
  let ?U = "cur_unprocessed_fields df (processed_fields st0)"
  have fcol: "f \<in> set (columns df)" by (rule single_array_field_column [OF one])
  have setU: "set ?U = {c \<in> set (columns df). \<not> is_bookkeeping c}"
    by (auto simp: cur_unprocessed_fields_def p0)
  have dU: "distinct (set_order eng ?U)"
    by (simp add: engine_ok_set_order(2) [OF ok] cur_unprocessed_fields_def)
  have "f \<in> set (set_order eng ?U)"
    using fcol nb by (simp add: engine_ok_set_order(1) [OF ok] setU)
  then obtain pre post where order: "set_order eng ?U = pre @ f # post"
    by (auto dest: split_list)
  from dU order have fnot: "f \<notin> set pre" "f \<notin> set post" by auto
  have sub: "set pre \<union> set post \<subseteq> {c \<in> set (columns df). \<not> is_bookkeeping c}"
    using order engine_ok_set_order(1) [OF ok, of ?U] setU by auto
  have all: "{c \<in> set (columns df). \<not> is_bookkeeping c} \<subseteq> insert f (set pre \<union> set post)"
    using order engine_ok_set_order(1) [OF ok, of ?U] setU by auto
  have pre: "\<forall>c \<in> set pre. to_unpack_cur_field_dtypes eng df c = []"
  proof
    fix c assume "c \<in> set pre"
    with fnot have "c \<noteq> f" by auto
    then have "\<forall>look \<in> set (df_collect df). \<not> is_array (look c) \<and> \<not> is_object (look c)"
      using single_array_field_cells(2) [OF one] by (auto simp: is_scalar_iff)
    then show "to_unpack_cur_field_dtypes eng df c = []"
      by (rule to_unpack_scalar_collect [OF ok])
  qed
  have rows_ne: "rows df \<noteq> []" using one by (simp add: single_array_field_def)
  have "\<forall>look \<in> set (df_collect df). is_array (look f)"
  proof
    fix look assume "look \<in> set (df_collect df)"
    from single_array_field_cells(1) [OF one this] show "is_array (look f)"
      by (cases "look f") simp_all
  qed
  then have arr: "to_unpack_cur_field_dtypes eng df f = [cell [''TYPEOF''] [VStr ''ARRAY'']]"
    by (rule to_unpack_array_collect [OF ok rows_ne])
  have post: "\<forall>c \<in> set post. to_unpack_cur_field_dtypes eng ?root c = []"
  proof
    fix c assume c: "c \<in> set post"
    with fnot have cf: "c \<noteq> f" by auto
    from c sub have "\<not> is_bookkeeping c" by auto
    then have ch: "c \<noteq> ?hf" using hash_field_bookkeeping [of f] by auto
    have "\<forall>look \<in> set (df_collect ?root). \<not> is_array (look c) \<and> \<not> is_object (look c)"
      using single_array_field_cells(2) [OF one _ cf] cf ch
      by (auto simp: root_collect is_scalar_iff)
    then show "to_unpack_cur_field_dtypes eng ?root c = []"
      by (rule to_unpack_scalar_collect [OF ok])
  qed
  have cap1: "0 + 1 \<noteq> max_recursive_calls ?cfg" using c1 by simp
  have cap2: "0 + 1 + 1 \<noteq> max_recursive_calls ?cfg" using c2 by simp
  have root_done: "cur_unprocessed_fields ?root (processed_fields st0 \<union> set pre \<union> set post) = []"
    using all hash_field_bookkeeping [of f]
    by (auto simp: cur_unprocessed_fields_def filter_empty_conv p0)
  have ccols: "columns ?child = [?hf, f]"
    by (simp add: flatten_array_child [OF nf])
  have child_U: "cur_unprocessed_fields ?child (processed_fields st0 \<union> set pre \<union> set post) = [f]"
    using fnot nb hash_field_bookkeeping [of f] by (simp add: cur_unprocessed_fields_def ccols p0)
  have child_sc: "\<forall>c \<in> set (cur_unprocessed_fields ?child (processed_fields st0 \<union> set pre \<union> set post)).
                    to_unpack_cur_field_dtypes eng ?child c = []"
  proof -
    have "\<forall>look \<in> set (df_collect ?child). \<not> is_array (look f) \<and> \<not> is_object (look f)"
      using child_collect_scalar [OF ok one nf] by (auto simp: is_scalar_iff)
    then have "to_unpack_cur_field_dtypes eng ?child f = []"
      by (rule to_unpack_scalar_collect [OF ok])
    then show ?thesis by (simp add: child_U)
  qed
  have child_ne: "cur_unprocessed_fields ?child (processed_fields st0 \<union> set pre \<union> set post) \<noteq> []"
    by (simp add: child_U)
  from model_one_array [OF ok order pre arr post cap1 cap2 root_done child_ne child_sc, of fuel "''ENTRY''"]
  obtain st' where st':
    "model_nested_JSON_objects (Suc (Suc (Suc fuel))) eng ?cfg df ''ENTRY'' 0 st0 = Some (None, st')"
    "globals st' = dict_set (result_key ?cfg f) ?child (dict_set (result_key ?cfg ''ENTRY'') ?root (globals st0))"
    by blast
  have g: "globals st' = [(''INTERNAL_RESULT_'' @ (prefix @ ''ENTRY'' @ suffix), ?root),
                          (''INTERNAL_RESULT_'' @ (prefix @ f @ suffix), ?child)]"
    using st'(2) ne by (simp add: result_key_def p0)
  have kne: "prefix @ ''ENTRY'' @ suffix \<noteq> prefix @ f @ suffix" using ne by simp
  have res: "collect_results (globals st') = [(prefix @ ''ENTRY'' @ suffix, ?root), (prefix @ f @ suffix, ?child)]"
    unfolding g by (rule collect_results_two [OF k1 k2 kne])
  show ?thesis
    using handler_returns [OF tab st'(1) [unfolded st0_def], of output_schema]
    by (simp add: res save_results_def)
qed

theorem lineage_naming_witness:
  "\<exists>st. snowpark_main_handler (Suc (Suc (Suc 0))) demo_engine [(''SRC'', demo_same_arrays)] []
           ''SRC'' ''OUT'' 100 [] []
         = Some (Inr [(''ENTRY'',
                       \<lparr>columns = [''ID'', ''ITEMS_SHA256''],
                          rows = [[VNum 1, VStr ''digest''], [VNum 2, VStr ''digest''],
                                  [VNum 3, VStr ''digest'']]\<rparr>),
                      (''ITEMS'',
                       \<lparr>columns = [''ITEMS_SHA256'', ''ITEMS''],
                          rows = [[VStr ''digest'', VNum 10], [VStr ''digest'', VNum 20]]\<rparr>)],
                 [(''SRC'', demo_same_arrays),
                  (''OUT.ENTRY'',
                   \<lparr>columns = [''ID'', ''ITEMS_SHA256''],
                      rows = [[VNum 1, VStr ''digest''], [VNum 2, VStr ''digest''],
                              [VNum 3, VStr ''digest'']]\<rparr>),
                  (''OUT.ITEMS'',
                   \<lparr>columns = [''ITEMS_SHA256'', ''ITEMS''],
                      rows = [[VStr ''digest'', VNum 10], [VStr ''digest'', VNum 20]]\<rparr>)],
                 st)"
proof -
  have one: "single_array_field demo_same_arrays ''ITEMS''" by code_simp
  have nf: "''ITEMS'' \<notin> set FLATTEN_COLS" by (simp add: FLATTEN_COLS_def)
  have nb: "\<not> is_bookkeeping ''ITEMS''" by code_simp
  have ne: "''ITEMS'' \<noteq> ''ENTRY''" by simp
  have c: "(100::int) \<noteq> 1" "(100::int) \<noteq> 2" by simp_all
  have k1: "\<not> str_contains ''INTERNAL_RESULT_'' ([] @ ''ENTRY'' @ [])" by code_simp
  have k2: "\<not> str_contains ''INTERNAL_RESULT_'' ([] @ ''ITEMS'' @ [])" by code_simp
  have tab: "map_of [(''SRC'', demo_same_arrays)] ''SRC'' = Some demo_same_arrays" by simp
  have r: "df_drop [''ITEMS''] (df_with_column (''ITEMS'' @ ''_SHA256'')
             (sha2_cast_string demo_engine (col ''ITEMS'')) demo_same_arrays)
           = \<lparr>columns = [''ID'', ''ITEMS_SHA256''],
                rows = [[VNum 1, VStr ''digest''], [VNum 2, VStr ''digest''],
                        [VNum 3, VStr ''digest'']]\<rparr>"
    by code_simp
  have ch: "fst (flatten_array demo_engine (df_with_column (''ITEMS'' @ ''_SHA256'')
             (sha2_cast_string demo_engine (col ''ITEMS'')) demo_same_arrays) ''ITEMS'')
           = \<lparr>columns = [''ITEMS_SHA256'', ''ITEMS''],
                rows = [[VStr ''digest'', VNum 10], [VStr ''digest'', VNum 20]]\<rparr>"
    by code_simp
  from lineage_naming [OF engine_ok_demo one nf nb ne c k1 k2 tab, of 0 "''OUT''"]
  show ?thesis unfolding r ch by (simp add: save_as_table_def)
qed

text \<open>C8 as stated fails in two ways.  With the depth cap 2 the first call of the child
  frame is a terminal call, and the table ITEMS is not produced.  With the prefix
  \<open>INTERNAL_RESULT_\<close> the tables are not keyed by prefix, lineage path and suffix: line 177
  removes every occurrence of the marker from the name.\<close>

theorem lineage_naming_counterexample:
  "map_option fst
     (snowpark_main_handler 5 demo_engine [(''SRC'', demo_same_arrays)] [] ''SRC'' ''OUT'' 2 [] [])
   = Some (Inr [(''ENTRY'',
                 \<lparr>columns = [''ID'', ''ITEMS_SHA256''],
                    rows = [[VNum 1, VStr ''digest''], [VNum 2, VStr ''digest''],
                            [VNum 3, VStr ''digest'']]\<rparr>)])
   \<and> map_option fst
     (snowpark_main_handler 5 demo_engine [(''SRC'', demo_same_arrays)] [] ''SRC'' ''OUT'' 100
        ''INTERNAL_RESULT_'' [])
   = Some (Inr [(''ENTRY'',
                 \<lparr>columns = [''ID'', ''ITEMS_SHA256''],
                    rows = [[VNum 1, VStr ''digest''], [VNum 2, VStr ''digest''],
                            [VNum 3, VStr ''digest'']]\<rparr>),
                (''ITEMS'',
                 \<lparr>columns = [''ITEMS_SHA256'', ''ITEMS''],
                    rows = [[VStr ''digest'', VNum 10], [VStr ''digest'', VNum 20]]\<rparr>)])"
  by code_simp

subsection \<open>The shared set of processed fields\<close>

lemma marked_append: "marked (es1 @ es2) = marked es1 \<union> marked es2"
  by (induction es1 rule: marked.induct) auto

lemma log_respects_append:
  "log_respects P (es1 @ es2) = (log_respects P es1 \<and> log_respects (P \<union> marked es1) es2)"
  by (induction P es1 rule: log_respects.induct) auto

lemma run_extends_refl: "run_extends st st"
  by (auto simp: run_extends_def intro: exI [of _ "[]"])

lemma run_extends_trans:
  assumes "run_extends st st1" "run_extends st1 st2"
  shows "run_extends st st2"
proof -
  from assms(1) obtain e1 where e1: "log st1 = log st @ e1" "log_respects (processed_fields st) e1"
    "processed_fields st1 = processed_fields st \<union> marked e1"
    by (auto simp: run_extends_def)
  from assms(2) obtain e2 where e2: "log st2 = log st1 @ e2" "log_respects (processed_fields st1) e2"
    "processed_fields st2 = processed_fields st1 \<union> marked e2"
    by (auto simp: run_extends_def)
  show ?thesis
    unfolding run_extends_def
    using e1 e2
    by (intro exI [of _ "e1 @ e2"]) (auto simp: log_respects_append marked_append)
qed

lemma run_extends_globals: "run_extends st (st\<lparr>globals := g\<rparr>)"
  by (auto simp: run_extends_def intro: exI [of _ "[]"])

lemma run_extends_add_log:
  assumes "log_respects (processed_fields st) evs" "marked evs = {}"
  shows "run_extends st (add_log evs st)"
  using assms by (auto simp: run_extends_def add_log_def)


lemma snd_flatten_array:
  "snd (flatten_array eng df f) = [LogFlattening f, LogFlattened f (df_count (fst (flatten_array eng df f)))]"
  by (simp add: flatten_array_def Let_def)

lemma snd_expand_object:
  "snd (expand_object_subfields eng df f)
     = [LogSubfields f (length (subfield_keys eng df f)) (subfield_keys eng df f)]
   \<or> snd (expand_object_subfields eng df f)
     = [LogSubfields f (length (subfield_keys eng df f)) (subfield_keys eng df f), LogExpanded]"
  by (simp add: expand_object_subfields_def Let_def split: sum.splits)

lemma expand_object_log:
  shows "f \<notin> P \<Longrightarrow> log_respects P (snd (expand_object_subfields eng df f))"
    and "marked (snd (expand_object_subfields eng df f)) = {}"
  using snd_expand_object [of eng df f] by auto

lemma process_field_extends:
  assumes "cur_field \<notin> processed_fields st"
    and "process_field eng cur_field df new_dfs st = (r, df', new_dfs', st')"
  shows "run_extends st st' \<and> processed_fields st' \<subseteq> insert cur_field (processed_fields st)"
proof -
  let ?n = "length (to_unpack_cur_field_dtypes eng df cur_field)"
  let ?dtype = "(to_unpack_cur_field_dtypes eng df cur_field ! 0) ''TYPEOF''"
  consider (amb) "?n > 1" | (sc) "?n = 0"
    | (arr) "?n = 1" "?dtype = VStr ''ARRAY''"
    | (obj) "?n = 1" "?dtype \<noteq> VStr ''ARRAY''" "?dtype = VStr ''OBJECT''"
    | (other) "?n = 1" "?dtype \<noteq> VStr ''ARRAY''" "?dtype \<noteq> VStr ''OBJECT''"
    by linarith
  then show ?thesis
  proof cases
    case amb
    with assms have "st' = add_log [LogCurrentField cur_field] st"
      by (simp add: process_field_def)
    with assms(1) show ?thesis by (auto simp: run_extends_def add_log_def)
  next
    case sc
    with assms have "st' = st\<lparr>processed_fields := insert cur_field (processed_fields st),
                              log := log st @ [LogCurrentField cur_field, LogEndOfPath cur_field]\<rparr>"
      by (simp add: process_field_def add_log_def)
    with assms(1) show ?thesis by (auto simp: run_extends_def)
  next
    case arr
    with assms have "st' = st\<lparr>log := log st @ [LogCurrentField cur_field, LogDtype cur_field ?dtype]
          @ snd (flatten_array eng (df_with_column (cur_field @ ''_SHA256'')
                                      (sha2_cast_string eng (col cur_field)) df) cur_field)\<rparr>"
      by (simp add: process_field_def add_log_def Let_def)
    with assms(1) show ?thesis by (auto simp: run_extends_def snd_flatten_array)
  next
    case obj
    show ?thesis
    proof (cases "expand_object_subfields eng df cur_field")
      case (Pair res evs)
      have evs: "evs = snd (expand_object_subfields eng df cur_field)" using Pair by simp
      show ?thesis
      proof (cases res)
        case (Inl e)
        with obj assms Pair have "st' = st\<lparr>log := log st @ [LogCurrentField cur_field,
              LogDtype cur_field ?dtype] @ evs\<rparr>"
          by (simp add: process_field_def add_log_def Let_def)
        with assms(1) show ?thesis
          by (auto simp: run_extends_def evs expand_object_log)
      next
        case (Inr df1)
        with obj assms Pair have "st' = st\<lparr>processed_fields := insert cur_field (processed_fields st),
              log := log st @ [LogCurrentField cur_field, LogDtype cur_field ?dtype] @ evs
                       @ [LogEndOfPath cur_field]\<rparr>"
          by (simp add: process_field_def add_log_def Let_def)
        with assms(1) show ?thesis
          by (auto simp: run_extends_def evs expand_object_log log_respects_append marked_append)
      qed
    qed
  next
    case other
    with assms have "st' = st\<lparr>log := log st @ [LogCurrentField cur_field, LogDtype cur_field ?dtype]\<rparr>"
      by (simp add: process_field_def add_log_def Let_def)
    with assms(1) show ?thesis by (auto simp: run_extends_def)
  qed
qed

lemma run_extends_mono: "run_extends st st' \<Longrightarrow> processed_fields st \<subseteq> processed_fields st'"
  by (auto simp: run_extends_def)

lemma process_fields_extends:
  assumes "distinct fs" "set fs \<inter> processed_fields st = {}"
    and "process_fields eng fs df new_dfs st = (r, df', new_dfs', st')"
  shows "run_extends st st' \<and> processed_fields st' \<subseteq> processed_fields st \<union> set fs"
  using assms
proof (induction fs arbitrary: df new_dfs st)
  case Nil
  then show ?case by (simp add: run_extends_refl)
next
  case (Cons f fs)
  obtain r1 df1 nd1 st1 where p: "process_field eng f df new_dfs st = (r1, df1, nd1, st1)"
    by (cases "process_field eng f df new_dfs st") auto
  from Cons.prems(2) have fn: "f \<notin> processed_fields st" by simp
  from process_field_extends [OF fn p]
  have e1: "run_extends st st1" and s1: "processed_fields st1 \<subseteq> insert f (processed_fields st)"
    by simp_all
  show ?case
  proof (cases r1)
    case (Some e)
    with p Cons.prems(3) have "st' = st1" by simp
    with e1 s1 show ?thesis by auto
  next
    case None
    with p Cons.prems(3) have rest: "process_fields eng fs df1 nd1 st1 = (r, df', new_dfs', st')"
      by simp
    have d: "distinct fs" using Cons.prems(1) by simp
    have i: "set fs \<inter> processed_fields st1 = {}"
      using Cons.prems(1,2) s1 by auto
    from Cons.IH [OF d i rest]
    have "run_extends st1 st'" "processed_fields st' \<subseteq> processed_fields st1 \<union> set fs" by simp_all
    with e1 s1 show ?thesis by (auto intro: run_extends_trans)
  qed
qed


lemma for_each_extends:
  assumes call: "\<And>name new_df s r s'. call name new_df s = Some (r, s') \<Longrightarrow> run_extends s s'"
    and "for_each_new_df call items st = Some (r, st')"
  shows "run_extends st st'"
  using assms(2)
proof (induction items arbitrary: st)
  case Nil
  then show ?case by (simp add: run_extends_refl)
next
  case (Cons item items)
  let ?s0 = "add_log [LogProcessNewDf (fst item)] st"
  have e0: "run_extends st ?s0" by (rule run_extends_add_log) simp_all
  from Cons.prems obtain r1 s1 where c1: "call (fst item) (snd item) ?s0 = Some (r1, s1)"
    by (cases "call (fst item) (snd item) ?s0") auto
  from call [OF c1] have e1: "run_extends ?s0 s1" .
  show ?case
  proof (cases r1)
    case (Some e)
    with c1 Cons.prems have "st' = s1" by simp
    with e0 e1 show ?thesis by (auto intro: run_extends_trans)
  next
    case None
    with c1 Cons.prems have "for_each_new_df call items s1 = Some (r, st')" by simp
    from Cons.IH [OF this] e0 e1 show ?thesis by (blast intro: run_extends_trans)
  qed
qed

lemma cur_unprocessed_disjoint: "set (cur_unprocessed_fields df P) \<inter> P = {}"
  by (auto simp: cur_unprocessed_fields_def)

lemma cur_unprocessed_distinct: "distinct (cur_unprocessed_fields df P)"
  by (simp add: cur_unprocessed_fields_def)

lemma model_extends:
  assumes ok: "engine_ok eng"
  shows "model_nested_JSON_objects fuel eng cfg df parent_path counter st = Some (r, st')
         \<Longrightarrow> run_extends st st'"
proof (induction fuel arbitrary: df parent_path counter st r st')
  case 0
  then show ?case by simp
next
  case (Suc fuel)
  let ?c1 = "counter + 1"
  let ?st1 = "add_log [LogCallStart ?c1 (df_count df) (processed_fields st)] st"
  let ?U = "cur_unprocessed_fields df (processed_fields st)"
  have e1: "run_extends st ?st1" by (rule run_extends_add_log) simp_all
  show ?case
  proof (cases "?U = [] \<or> ?c1 = max_recursive_calls cfg")
    case True
    with Suc.prems have "st' = add_log [LogTerminated ?c1] ?st1"
      by (auto simp: Let_def)
    moreover have "run_extends ?st1 (add_log [LogTerminated ?c1] ?st1)"
      by (rule run_extends_add_log) simp_all
    ultimately show ?thesis using e1 by (auto intro: run_extends_trans)
  next
    case False
    obtain r1 df2 nd st2 where loop:
      "process_fields eng (set_order eng ?U) df [] ?st1 = (r1, df2, nd, st2)"
      by (cases "process_fields eng (set_order eng ?U) df [] ?st1") auto
    have d: "distinct (set_order eng ?U)"
      by (simp add: engine_ok_set_order(2) [OF ok] cur_unprocessed_distinct)
    have i: "set (set_order eng ?U) \<inter> processed_fields ?st1 = {}"
      by (simp add: engine_ok_set_order(1) [OF ok] cur_unprocessed_disjoint)
    from process_fields_extends [OF d i loop] have e2: "run_extends ?st1 st2" by simp
    show ?thesis
    proof (cases r1)
      case (Some e)
      with False loop Suc.prems have "st' = st2" by (auto simp: Let_def)
      with e1 e2 show ?thesis by (auto intro: run_extends_trans)
    next
      case None
      let ?st2' = "st2\<lparr>globals := dict_set (result_key cfg parent_path) df2 (globals st2)\<rparr>"
      have e2': "run_extends st2 ?st2'" by (rule run_extends_globals)
      from None False loop Suc.prems obtain r3 st3 where
        inner: "model_nested_JSON_objects fuel eng cfg df2 parent_path ?c1 ?st2' = Some (r3, st3)"
        by (cases "model_nested_JSON_objects fuel eng cfg df2 parent_path ?c1 ?st2'")
           (auto simp: Let_def)
      from Suc.IH [OF inner] have e3: "run_extends ?st2' st3" .
      have e03: "run_extends st st3"
        using e1 e2 e2' e3 by (blast intro: run_extends_trans)
      show ?thesis
      proof (cases r3)
        case (Some e)
        with None False loop inner Suc.prems have "st' = st3" by (auto simp: Let_def)
        with e03 show ?thesis by simp
      next
        case None3: None
        with None False loop inner Suc.prems have
          fe: "for_each_new_df
                 (\<lambda>name new_df. model_nested_JSON_objects fuel eng cfg new_df name ?c1) nd st3
               = Some (r, st')"
          by (auto simp: Let_def)
        have "run_extends st3 st'"
          by (rule for_each_extends [OF _ fe]) (rule Suc.IH)
        with e03 show ?thesis by (blast intro: run_extends_trans)
      qed
    qed
  qed
qed

text \<open>
  C3.  The set of processed fields is threaded through every call of a run: whatever the
  frame, the lineage and the depth, a call that returns or raises has only added messages to
  the log, the set has only grown by the fields the log marks, and in the added messages no
  field is detected, flattened or expanded after it entered the set, in whichever frame of
  the run that was (the messages of all frames of the run are in the one log).  A field of the
  final set is in no frame's unprocessed fields.
\<close>

theorem processed_fields_shared:
  assumes "engine_ok eng"
    and "model_nested_JSON_objects fuel eng cfg df parent_path counter st = Some (r, st')"
  shows "\<exists>evs. log st' = log st @ evs
               \<and> log_respects (processed_fields st) evs
               \<and> processed_fields st' = processed_fields st \<union> marked evs
               \<and> set (cur_unprocessed_fields df2 (processed_fields st')) \<inter> processed_fields st' = {}"
  using model_extends [OF assms] cur_unprocessed_disjoint [of df2 "processed_fields st'"]
  by (auto simp: run_extends_def)

theorem processed_fields_shared_witness:
  "\<exists>st'. model_nested_JSON_objects 5 demo_engine
            \<lparr>max_recursive_calls = 100, output_table_prefix = [], output_table_suffix = []\<rparr>
            demo_shared ''ENTRY'' 0 \<lparr>processed_fields = {}, globals = [], log = []\<rparr>
          = Some (None, st')
        \<and> log_respects {} (log st')
        \<and> processed_fields st' = {''ITEMS'', ''ITEMS__TAGS''}
        \<and> map_of (globals st') ''INTERNAL_RESULT_ITEMS''
            = Some \<lparr>columns = [''ITEMS_SHA256'', ''ITEMS__TAGS''],
                      rows = [[VStr ''digest'', VArr [VNum 1, VNum 2]]]\<rparr>"
proof -
  let ?S = "\<lparr>processed_fields = {''ITEMS'', ''ITEMS__TAGS''},
      globals =
        [(''INTERNAL_RESULT_ENTRY'',
          \<lparr>columns = [''ITEMS__TAGS'', ''ITEMS_SHA256''],
             rows = [[VStr ''red'', VStr ''digest'']]\<rparr>),
         (''INTERNAL_RESULT_ITEMS'',
          \<lparr>columns = [''ITEMS_SHA256'', ''ITEMS__TAGS''],
             rows = [[VStr ''digest'', VArr [VNum 1, VNum 2]]]\<rparr>)],
      log =
        [LogCallStart 1 1 {}, LogCurrentField ''ITEMS__TAGS'',
         LogEndOfPath ''ITEMS__TAGS'', LogCurrentField ''ITEMS'',
         LogDtype ''ITEMS'' (VStr ''ARRAY''), LogFlattening ''ITEMS'',
         LogFlattened ''ITEMS'' 1, LogCallStart 2 1 {''ITEMS__TAGS''},
         LogTerminated 2, LogProcessNewDf ''ITEMS'',
         LogCallStart 2 1 {''ITEMS__TAGS''}, LogCurrentField ''ITEMS'',
         LogDtype ''ITEMS'' (VStr ''OBJECT''),
         LogSubfields ''ITEMS'' 1 [''TAGS''], LogExpanded,
         LogEndOfPath ''ITEMS'',
         LogCallStart 3 1 {''ITEMS'', ''ITEMS__TAGS''}, LogTerminated 3]\<rparr>"
  have run: "model_nested_JSON_objects 5 demo_engine
            \<lparr>max_recursive_calls = 100, output_table_prefix = [], output_table_suffix = []\<rparr>
            demo_shared ''ENTRY'' 0 \<lparr>processed_fields = {}, globals = [], log = []\<rparr>
          = Some (None, ?S)"
    by code_simp
  from processed_fields_shared [OF engine_ok_demo run]
  have "log_respects {} (log ?S)" by auto
  with run show ?thesis
    by (intro exI [of _ ?S]) simp
qed

subsection \<open>Termination\<close>

lemma for_each_returns:
  assumes "\<And>item s. item \<in> set items \<Longrightarrow> call (fst item) (snd item) s \<noteq> None"
  shows "for_each_new_df call items st \<noteq> None"
  using assms
proof (induction items arbitrary: st)
  case Nil
  show ?case by simp
next
  case (Cons item items)
  let ?s0 = "add_log [LogProcessNewDf (fst item)] st"
  from Cons.prems [of item ?s0] obtain r1 s1 where
    c: "call (fst item) (snd item) ?s0 = Some (r1, s1)"
    by (cases "call (fst item) (snd item) ?s0") auto
  show ?case
  proof (cases r1)
    case None
    with c Cons.IH [of s1] Cons.prems show ?thesis by simp
  next
    case (Some e)
    with c show ?thesis by simp
  qed
qed

lemma model_returns_within_cap:
  "counter < max_recursive_calls cfg \<Longrightarrow> nat (max_recursive_calls cfg - counter) \<le> fuel
   \<Longrightarrow> model_nested_JSON_objects fuel eng cfg df parent_path counter st \<noteq> None"
proof (induction fuel arbitrary: df parent_path counter st)
  case 0
  then show ?case by simp
next
  case (Suc fuel)
  let ?c1 = "counter + 1"
  let ?st1 = "add_log [LogCallStart ?c1 (df_count df) (processed_fields st)] st"
  let ?U = "cur_unprocessed_fields df (processed_fields st)"
  show ?case
  proof (cases "?U = [] \<or> ?c1 = max_recursive_calls cfg")
    case True
    then show ?thesis by (auto simp: Let_def)
  next
    case False
    with Suc.prems have lt: "?c1 < max_recursive_calls cfg" by simp
    from Suc.prems have le: "nat (max_recursive_calls cfg - ?c1) \<le> fuel" by simp
    have ih: "model_nested_JSON_objects fuel eng cfg df2 path2 ?c1 st2 \<noteq> None" for df2 path2 st2
      by (rule Suc.IH [OF lt le])
    obtain r1 df2 nd st2 where loop:
      "process_fields eng (set_order eng ?U) df [] ?st1 = (r1, df2, nd, st2)"
      by (cases "process_fields eng (set_order eng ?U) df [] ?st1") auto
    show ?thesis
    proof (cases r1)
      case (Some e)
      with False loop show ?thesis by (simp add: Let_def)
    next
      case None
      let ?st2' = "st2\<lparr>globals := dict_set (result_key cfg parent_path) df2 (globals st2)\<rparr>"
      from ih [of df2 parent_path ?st2'] obtain r3 st3 where
        inner: "model_nested_JSON_objects fuel eng cfg df2 parent_path ?c1 ?st2' = Some (r3, st3)"
        by (cases "model_nested_JSON_objects fuel eng cfg df2 parent_path ?c1 ?st2'") auto
      show ?thesis
      proof (cases r3)
        case (Some e)
        with None False loop inner show ?thesis by (simp add: Let_def)
      next
        case None3: None
        have "for_each_new_df
                (\<lambda>name new_df. model_nested_JSON_objects fuel eng cfg new_df name ?c1) nd st3 \<noteq> None"
          by (rule for_each_returns) (rule ih)
        with None None3 False loop inner show ?thesis by (simp add: Let_def)
      qed
    qed
  qed
qed

lemma Max_list_ge: "n \<in> set ns \<Longrightarrow> n \<le> Max (set (0 # ns))" for n :: nat
  by (rule Max_ge) simp_all

lemma Max_list_le: "(\<And>n. n \<in> set ns \<Longrightarrow> n \<le> b) \<Longrightarrow> Max (set (0 # ns)) \<le> b" for b :: nat
  by (rule Max.boundedI) auto

lemma depth_element: "e \<in> set xs \<Longrightarrow> depth e < depth (VArr xs)"
proof -
  assume "e \<in> set xs"
  then have "depth e \<in> set (map depth xs)" by simp
  then have "depth e \<le> Max (set (0 # map depth xs))" by (rule Max_list_ge)
  then show ?thesis by simp
qed

lemma depth_exploded:
  assumes "e \<in> set (exploded_elements v)"
  shows "depth e \<le> depth v - 1"
proof (cases v)
  case (VArr xs)
  show ?thesis
  proof (cases xs)
    case Nil
    with VArr assms show ?thesis by simp
  next
    case (Cons y ys)
    with VArr assms have "e \<in> set xs" by simp
    from depth_element [OF this] VArr show ?thesis by simp
  qed
qed (use assms in simp_all)

lemma depth_get_item: "depth (get_item v k) \<le> depth v - 1"
proof (cases v)
  case (VObj kvs)
  show ?thesis
  proof (cases "map_of kvs k")
    case None
    with VObj show ?thesis by simp
  next
    case (Some x)
    then have "(k, x) \<in> set kvs" by (rule map_of_SomeD)
    then have "depth x \<in> set (map (\<lambda>kv. depth (snd kv)) kvs)" by force
    then have "depth x \<le> Max (set (0 # map (\<lambda>kv. depth (snd kv)) kvs))" by (rule Max_list_ge)
    with VObj Some show ?thesis by simp
  qed
qed simp_all

lemma depth_pos_array: "is_array v \<Longrightarrow> 0 < depth v"
  by (cases v) simp_all

lemma depth_pos_object: "is_object v \<Longrightarrow> 0 < depth v"
  by (cases v) simp_all

lemma col_depth_ge: "look \<in> set (df_collect df) \<Longrightarrow> Suc (depth (look c)) \<le> col_depth df c"
proof -
  assume "look \<in> set (df_collect df)"
  then have "depth (look c) \<in> set (map (\<lambda>look. depth (look c)) (df_collect df))" by simp
  then have "depth (look c) \<le> Max (set (0 # map (\<lambda>look. depth (look c)) (df_collect df)))"
    by (rule Max_list_ge)
  then show ?thesis by (simp add: col_depth_def)
qed

lemma col_depth_le:
  assumes "\<And>look. look \<in> set (df_collect df) \<Longrightarrow> depth (look c) \<le> n"
  shows "col_depth df c \<le> Suc n"
proof -
  have "Max (set (0 # map (\<lambda>look. depth (look c)) (df_collect df))) \<le> n"
    by (rule Max_list_le) (use assms in auto)
  then show ?thesis by (simp add: col_depth_def)
qed

lemma col_depth_cong:
  assumes "map (\<lambda>look. look c) (df_collect df') = map (\<lambda>look. look c) (df_collect df)"
  shows "col_depth df' c = col_depth df c"
proof -
  have e: "map (\<lambda>look. depth (look c)) (df_collect d) = map depth (map (\<lambda>look. look c) (df_collect d))"
    for d by (simp add: comp_def)
  show ?thesis unfolding col_depth_def e assms ..
qed

lemma set_cur_unprocessed:
  "set (cur_unprocessed_fields df P) = {c \<in> set (columns df). \<not> is_bookkeeping c \<and> c \<notin> P}"
  by (auto simp: cur_unprocessed_fields_def)

lemma pending_depth_ge:
  "c \<in> set (cur_unprocessed_fields df P) \<Longrightarrow> col_depth df c \<le> pending_depth df P"
  unfolding pending_depth_def by (rule Max_list_ge) simp

lemma pending_depth_le:
  assumes "\<And>c. c \<in> set (cur_unprocessed_fields df P) \<Longrightarrow> col_depth df c \<le> n"
  shows "pending_depth df P \<le> n"
  unfolding pending_depth_def by (rule Max_list_le) (use assms in auto)

lemma flatten_array_child_value:
  "columns (fst (flatten_array eng df ''VALUE'')) = [''VALUE_SHA256'']"
  by (simp add: flatten_array_def Let_def df_with_column_renamed_def df_join_flatten_def
        DROPPED_COLS_def FLATTEN_COLS_def)

lemma dtype_sampled:
  assumes ok: "engine_ok eng"
    and "look \<in> set (to_unpack_cur_field_dtypes eng df f)"
  shows "\<exists>l \<in> set (df_collect df). typeof_val (l f) = look ''TYPEOF''"
proof -
  from assms(2) obtain r where
    r: "r \<in> set (row_order eng (remdups (map (\<lambda>v. [typeof_val v]) (sampled_values eng df f))))"
    and l: "look = cell [''TYPEOF''] r"
    by (auto simp: to_unpack_sampled)
  from r obtain v where v: "v \<in> set (sampled_values eng df f)" and rv: "r = [typeof_val v]"
    by (auto simp: engine_ok_row_order(1) [OF ok])
  from v sampled_values_subset [OF ok, of df f] obtain r0 where
    "r0 \<in> set (rows df)" "v = cell (columns df) r0 f" by auto
  then have "cell (columns df) r0 \<in> set (df_collect df)" "typeof_val (cell (columns df) r0 f) = look ''TYPEOF''"
    using l rv by (simp_all add: df_collect_def cell_single)
  then show ?thesis by blast
qed

lemma typeof_val_array_iff: "(typeof_val v = VStr ''ARRAY'') = is_array v"
  by (cases v) simp_all

lemma typeof_val_object_iff: "(typeof_val v = VStr ''OBJECT'') = is_object v"
  by (cases v) simp_all

lemma drop_pending:
  shows "set (cur_unprocessed_fields (df_drop [f] df) P) = set (cur_unprocessed_fields df P) - {f}"
    and "c \<noteq> f \<Longrightarrow> col_depth (df_drop [f] df) c = col_depth df c"
proof -
  show "set (cur_unprocessed_fields (df_drop [f] df) P) = set (cur_unprocessed_fields df P) - {f}"
    by (auto simp: set_cur_unprocessed)
  show "c \<noteq> f \<Longrightarrow> col_depth (df_drop [f] df) c = col_depth df c"
    by (rule col_depth_cong) (simp add: df_collect_drop comp_def)
qed

lemma array_root_pending:
  shows "set (cur_unprocessed_fields (df_drop [f] (df_with_column (f @ ''_SHA256'') e df)) P)
           = set (cur_unprocessed_fields df P) - {f}"
    and "c \<noteq> f \<Longrightarrow> \<not> is_bookkeeping c \<Longrightarrow>
         col_depth (df_drop [f] (df_with_column (f @ ''_SHA256'') e df)) c = col_depth df c"
proof -
  show "set (cur_unprocessed_fields (df_drop [f] (df_with_column (f @ ''_SHA256'') e df)) P)
           = set (cur_unprocessed_fields df P) - {f}"
    using hash_field_bookkeeping [of f] by (auto simp: set_cur_unprocessed)
  assume c: "c \<noteq> f" "\<not> is_bookkeeping c"
  with hash_field_bookkeeping [of f] have "c \<noteq> f @ ''_SHA256''" by auto
  with c show "col_depth (df_drop [f] (df_with_column (f @ ''_SHA256'') e df)) c = col_depth df c"
    by (intro col_depth_cong) (simp add: root_collect comp_def)
qed

lemma array_child_depth:
  assumes ok: "engine_ok eng"
    and arr: "look0 \<in> set (df_collect df)" "is_array (look0 f)"
    and c: "c \<in> set (cur_unprocessed_fields
                       (fst (flatten_array eng (df_with_column (f @ ''_SHA256'') e df) f)) Q)"
  shows "col_depth (fst (flatten_array eng (df_with_column (f @ ''_SHA256'') e df) f)) c
           < col_depth df f"
proof (cases "f = ''VALUE''")
  case True
  have "is_bookkeeping (''VALUE'' @ ''_SHA256'')" by (rule hash_field_bookkeeping)
  with c True have False
    by (auto simp: set_cur_unprocessed flatten_array_child_value)
  then show ?thesis ..
next
  case False
  define hf where "hf = f @ ''_SHA256''"
  define df1 where "df1 = df_with_column hf e df"
  define child where "child = fst (flatten_array eng df1 f)"
  have hfb: "is_bookkeeping hf" unfolding hf_def by (rule hash_field_bookkeeping)
  have hff: "hf \<noteq> f" by (simp add: hf_def)
  have ch: "child = \<lparr>columns = [hf, f],
                     rows = spec_child_rows f (rows (df_distinct eng (df_select_names [hf, f] df1)))\<rparr>"
    unfolding child_def hf_def by (rule flatten_array_child_gen [OF False])
  from c hfb have cf: "c = f"
    by (auto simp: set_cur_unprocessed child_def [symmetric] df1_def [symmetric]
          hf_def [symmetric] ch)
  from col_depth_ge [OF arr(1), of f] depth_pos_array [OF arr(2)]
  have big: "2 \<le> col_depth df f" by simp
  have "depth (look f) \<le> col_depth df f - 2" if "look \<in> set (df_collect child)" for look
  proof -
    from that obtain r where r: "r \<in> set (spec_child_rows f (rows (df_distinct eng (df_select_names [hf, f] df1))))"
      and l: "look = cell [hf, f] r"
      by (auto simp: df_collect_def ch)
    from r obtain p ee where
      p: "p \<in> set (rows (df_distinct eng (df_select_names [hf, f] df1)))"
      and ee: "ee \<in> set (exploded_elements (cell [hf, f] p f))"
      and rr: "r = [cell [hf, f] p hf, ee]"
      by (auto simp: spec_child_rows_def hf_def)
    from p obtain r1 where r1: "r1 \<in> set (rows df1)" and pr: "p = map (cell (columns df1) r1) [hf, f]"
      by (auto simp: df_distinct_def engine_ok_row_order(1) [OF ok] rows_df_select_names)
    have "cell (columns df1) r1 \<in> set (df_collect df1)" using r1 by (simp add: df_collect_def)
    then obtain l0 where l0: "l0 \<in> set (df_collect df)" and e1: "cell (columns df1) r1 = l0(hf := e l0)"
      by (auto simp: df1_def df_collect_with_column)
    have "cell [hf, f] p f = l0 f"
      using hff by (simp add: pr cell_second e1)
    with ee have "ee \<in> set (exploded_elements (l0 f))" by simp
    then have "depth ee \<le> depth (l0 f) - 1" by (rule depth_exploded)
    moreover have "Suc (depth (l0 f)) \<le> col_depth df f" by (rule col_depth_ge [OF l0])
    moreover have "look f = ee" using hff by (simp add: l rr cell_second)
    ultimately show ?thesis by arith
  qed
  then have "col_depth child f \<le> Suc (col_depth df f - 2)" by (rule col_depth_le)
  with big cf show ?thesis
    by (simp add: child_def df1_def hf_def)
qed

lemma object_step_pending:
  fixes f :: string and keys names :: "string list" and df :: dataframe
  defines "vals \<equiv> map (\<lambda>key. col_getitem (col f) key) keys"
  defines "df' \<equiv> df_drop [f] (df_replace_columns names vals df)"
  assumes obj: "look0 \<in> set (df_collect df)" "is_object (look0 f)"
    and ln: "length names = length keys"
  shows "c \<in> set (cur_unprocessed_fields df' (insert f P)) \<Longrightarrow>
           c \<noteq> f \<and> (c \<in> set (cur_unprocessed_fields df P) \<and> col_depth df' c = col_depth df c
                     \<or> col_depth df' c < col_depth df f)"
    and "c \<in> set (cur_unprocessed_fields df P) \<Longrightarrow> c \<noteq> f \<Longrightarrow>
           c \<in> set (cur_unprocessed_fields df' (insert f P))"
proof -
  have len: "length names = length vals" by (simp add: ln vals_def)
  have cols: "columns df' = filter (\<lambda>c. c \<noteq> f) (filter (\<lambda>c. c \<notin> set names) (columns df) @ names)"
    by (simp add: df'_def columns_df_replace_columns [OF len])
  from col_depth_ge [OF obj(1), of f] depth_pos_object [OF obj(2)]
  have big: "2 \<le> col_depth df f" by simp
  have coll: "df_collect df' =
      map (\<lambda>look c. if c = f then VNull
                     else case map_of (zip names vals) c of Some e \<Rightarrow> e look | None \<Rightarrow> look c)
          (df_collect df)"
    by (simp add: df'_def df_collect_drop df_collect_replace_columns [OF len] comp_def)
  have dom: "(map_of (zip names vals) c = None) = (c \<notin> set names)" for c
    using len by (metis map_fst_zip map_of_eq_None_iff set_map)
  have old: "col_depth df' c = col_depth df c" if "c \<noteq> f" "c \<notin> set names" for c
    using that dom [of c] by (intro col_depth_cong) (simp add: coll comp_def)
  have new: "col_depth df' c < col_depth df f" if "c \<in> set names" for c
  proof -
    from that dom [of c] obtain ex where ex: "map_of (zip names vals) c = Some ex" by auto
    then have "(c, ex) \<in> set (zip names vals)" by (rule map_of_SomeD)
    then have "ex \<in> set vals" by (rule set_zip_rightD)
    then obtain key where key: "ex = col_getitem (col f) key" by (auto simp: vals_def)
    have "depth (look c) \<le> col_depth df f - 2" if l: "look \<in> set (df_collect df')" for look
    proof -
      from l obtain l0 where l0: "l0 \<in> set (df_collect df)"
        and lc: "look c = (if c = f then VNull else get_item (l0 f) key)"
        by (auto simp: coll ex key col_getitem_def col_def)
      have "depth (get_item (l0 f) key) \<le> depth (l0 f) - 1" by (rule depth_get_item)
      moreover have "Suc (depth (l0 f)) \<le> col_depth df f" by (rule col_depth_ge [OF l0])
      ultimately have "depth (get_item (l0 f) key) \<le> col_depth df f - 2" by arith
      then show ?thesis by (simp add: lc)
    qed
    then have "col_depth df' c \<le> Suc (col_depth df f - 2)" by (rule col_depth_le)
    with big show ?thesis by simp
  qed
  show "c \<in> set (cur_unprocessed_fields df' (insert f P)) \<Longrightarrow>
           c \<noteq> f \<and> (c \<in> set (cur_unprocessed_fields df P) \<and> col_depth df' c = col_depth df c
                     \<or> col_depth df' c < col_depth df f)"
    using old [of c] new [of c] by (auto simp: set_cur_unprocessed cols)
  show "c \<in> set (cur_unprocessed_fields df P) \<Longrightarrow> c \<noteq> f \<Longrightarrow>
           c \<in> set (cur_unprocessed_fields df' (insert f P))"
    by (auto simp: set_cur_unprocessed cols)
qed

lemma quote_names_length: "quote_names ns = Inr qs \<Longrightarrow> length qs = length ns"
proof (induction ns arbitrary: qs)
  case Nil
  then show ?case by simp
next
  case (Cons n ns)
  then show ?case by (auto split: sum.splits)
qed

lemma df_with_columns_Inr:
  assumes "df_with_columns ns vs df = Inr d"
  shows "\<exists>rs. length rs = length ns \<and> length ns = length vs \<and> d = df_replace_columns rs vs df"
proof -
  from assms obtain qs where q: "quote_names ns = Inr qs"
    by (cases "quote_names ns") (auto simp: df_with_columns_def)
  with assms have "length ns = length vs"
    and "d = df_replace_columns (map strip_unnecessary_quotes qs) vs df"
    by (auto simp: df_with_columns_def split: if_splits)
  with quote_names_length [OF q] show ?thesis
    by (intro exI [of _ "map strip_unnecessary_quotes qs"]) simp
qed

lemma set_dict_set: "set (dict_set k v d) \<subseteq> insert (k, v) (set d)"
  by (induction d) auto

lemma process_field_step:
  assumes ok: "engine_ok eng"
    and p: "process_field eng f df nd st = (None, df', nd', st')"
  shows "\<forall>c \<in> set (cur_unprocessed_fields df' (processed_fields st')).
            c \<noteq> f \<and> (c \<in> set (cur_unprocessed_fields df (processed_fields st))
                         \<and> col_depth df' c = col_depth df c
                       \<or> col_depth df' c < col_depth df f)"
    and "\<forall>c \<in> set (cur_unprocessed_fields df (processed_fields st)).
            c \<noteq> f \<longrightarrow> c \<in> set (cur_unprocessed_fields df' (processed_fields st'))"
    and "\<forall>item \<in> set nd'. item \<in> set nd \<or>
            (\<forall>Q. \<forall>c \<in> set (cur_unprocessed_fields (snd item) Q).
                    col_depth (snd item) c < col_depth df f)"
proof -
  define T where "T = to_unpack_cur_field_dtypes eng df f"
  let ?A = "\<forall>c \<in> set (cur_unprocessed_fields df' (processed_fields st')).
            c \<noteq> f \<and> (c \<in> set (cur_unprocessed_fields df (processed_fields st))
                         \<and> col_depth df' c = col_depth df c
                       \<or> col_depth df' c < col_depth df f)"
  let ?B = "\<forall>c \<in> set (cur_unprocessed_fields df (processed_fields st)).
            c \<noteq> f \<longrightarrow> c \<in> set (cur_unprocessed_fields df' (processed_fields st'))"
  let ?C = "\<forall>item \<in> set nd'. item \<in> set nd \<or>
            (\<forall>Q. \<forall>c \<in> set (cur_unprocessed_fields (snd item) Q).
                    col_depth (snd item) c < col_depth df f)"
  have "?A \<and> ?B \<and> ?C"
  proof (cases "length T = 0")
    case True
    then have "T = []" by simp
    from p [unfolded process_field_scalar [OF this [unfolded T_def]]]
    have "df' = df" "nd' = nd" "processed_fields st' = insert f (processed_fields st)"
      by auto
    then show ?thesis by (auto simp: set_cur_unprocessed)
  next
    case False
    have "\<not> 1 < length T"
      using p by (auto simp: process_field_def Let_def T_def)
    with False have one: "length T = 1" by arith
    define dtype where "dtype = (T ! 0) ''TYPEOF''"
    from one have "T ! 0 \<in> set T" by simp
    from dtype_sampled [OF ok this [unfolded T_def]] obtain l0 where
      l0: "l0 \<in> set (df_collect df)" and ty: "typeof_val (l0 f) = dtype"
      by (auto simp: dtype_def T_def)
    show ?thesis
    proof (cases "dtype = VStr ''ARRAY''")
      case True
      with ty have arr: "is_array (l0 f)" by (simp add: typeof_val_array_iff)
      let ?df1 = "df_with_column (f @ ''_SHA256'') (sha2_cast_string eng (col f)) df"
      from p one True have
        d: "df' = df_drop [f] ?df1"
        and n: "nd' = dict_set f (fst (flatten_array eng ?df1 f)) nd"
        and s: "processed_fields st' = processed_fields st"
        by (auto simp: process_field_def Let_def T_def [symmetric] dtype_def [symmetric])
      have a: ?A
        using array_root_pending [where f = f and e = "sha2_cast_string eng (col f)" and df = df]
        by (auto simp: d s set_cur_unprocessed)
      have b: ?B
        using array_root_pending(1) [where f = f and e = "sha2_cast_string eng (col f)" and df = df
              and P = "processed_fields st"]
        by (auto simp: d s)
      have c: ?C
      proof
        fix item assume "item \<in> set nd'"
        with set_dict_set [of f "fst (flatten_array eng ?df1 f)" nd]
        have "item = (f, fst (flatten_array eng ?df1 f)) \<or> item \<in> set nd" by (auto simp: n)
        then show "item \<in> set nd \<or>
            (\<forall>Q. \<forall>c \<in> set (cur_unprocessed_fields (snd item) Q).
                    col_depth (snd item) c < col_depth df f)"
          using array_child_depth [OF ok l0 arr] by auto
      qed
      from a b c show ?thesis by blast
    next
      case nota: False
      show ?thesis
      proof (cases "dtype = VStr ''OBJECT''")
        case True
        with ty have obj: "is_object (l0 f)" by (simp add: typeof_val_object_iff)
        define keys where "keys = subfield_keys eng df f"
        let ?names = "map (\<lambda>key. f @ ''__'' @ key) keys"
        let ?vals = "map (\<lambda>key. col_getitem (col f) key) keys"
        have ex: "expand_object_subfields eng df f =
                    (if keys = []
                     then (Inl (ValueError ''not enough values to unpack (expected 2, got 0)''),
                           [LogSubfields f (length keys) keys])
                     else (case df_with_columns ?names ?vals df of
                             Inl e \<Rightarrow> (Inl e, [LogSubfields f (length keys) keys])
                           | Inr d \<Rightarrow> (Inr d, [LogSubfields f (length keys) keys] @ [LogExpanded])))"
          unfolding keys_def by (simp add: expand_object_subfields_def Let_def comp_def)
        from p one True nota obtain d1 where
          w: "df_with_columns ?names ?vals df = Inr d1"
          and d: "df' = df_drop [f] d1"
          and n: "nd' = nd"
          and s: "processed_fields st' = insert f (processed_fields st)"
          by (auto simp: process_field_def Let_def T_def [symmetric] dtype_def [symmetric] ex
                split: if_splits sum.splits)
        from df_with_columns_Inr [OF w] obtain rs where
          rs: "length rs = length keys" and d1: "d1 = df_replace_columns rs ?vals df"
          by auto
        have a: ?A
          using object_step_pending(1) [OF l0 obj rs, where P = "processed_fields st"]
          by (simp add: d d1 s)
        have b: ?B
          using object_step_pending(2) [OF l0 obj rs, where P = "processed_fields st"]
          by (simp add: d d1 s)
        from a b n show ?thesis by simp
      next
        case False
        with p one nota have
          d: "df' = df_drop [f] df" and n: "nd' = nd"
          and s: "processed_fields st' = processed_fields st"
          by (auto simp: process_field_def Let_def T_def [symmetric] dtype_def [symmetric])
        show ?thesis
          using drop_pending [where f = f and df = df]
          by (auto simp: d s n)
      qed
    qed
  qed
  then show ?A and ?B and ?C by blast+
qed

lemma process_fields_step:
  assumes ok: "engine_ok eng"
  shows "distinct fs \<Longrightarrow>
         set fs \<subseteq> set (cur_unprocessed_fields df (processed_fields st)) \<Longrightarrow>
         process_fields eng fs df nd st = (None, df', nd', st') \<Longrightarrow>
         \<forall>c \<in> set (cur_unprocessed_fields df (processed_fields st)).
            col_depth df c < B \<or> (c \<in> set fs \<and> col_depth df c \<le> B) \<Longrightarrow>
         \<forall>item \<in> set nd. \<forall>Q. \<forall>c \<in> set (cur_unprocessed_fields (snd item) Q).
            col_depth (snd item) c < B \<Longrightarrow>
         (\<forall>c \<in> set (cur_unprocessed_fields df' (processed_fields st')). col_depth df' c < B) \<and>
         (\<forall>item \<in> set nd'. \<forall>Q. \<forall>c \<in> set (cur_unprocessed_fields (snd item) Q).
            col_depth (snd item) c < B)"
proof (induction fs arbitrary: df nd st)
  case Nil
  then show ?case by simp
next
  case (Cons f fs)
  obtain r1 df1 nd1 st1 where p: "process_field eng f df nd st = (r1, df1, nd1, st1)"
    by (cases "process_field eng f df nd st") auto
  from Cons.prems(3) p have r1: "r1 = None"
    by (cases r1) auto
  from Cons.prems(3) p r1 have rest: "process_fields eng fs df1 nd1 st1 = (None, df', nd', st')"
    by simp
  note step = process_field_step [OF ok p [unfolded r1]]
  from Cons.prems(1) have df: "distinct fs" and nf: "f \<notin> set fs" by simp_all
  from Cons.prems(2) have fS: "f \<in> set (cur_unprocessed_fields df (processed_fields st))"
    by simp
  with Cons.prems(4) have fB: "col_depth df f \<le> B" by auto
  have sub: "set fs \<subseteq> set (cur_unprocessed_fields df1 (processed_fields st1))"
  proof
    fix c assume c: "c \<in> set fs"
    with nf have "c \<noteq> f" by auto
    moreover from c Cons.prems(2) have "c \<in> set (cur_unprocessed_fields df (processed_fields st))"
      by auto
    ultimately show "c \<in> set (cur_unprocessed_fields df1 (processed_fields st1))"
      using step(2) by blast
  qed
  have inv: "\<forall>c \<in> set (cur_unprocessed_fields df1 (processed_fields st1)).
               col_depth df1 c < B \<or> (c \<in> set fs \<and> col_depth df1 c \<le> B)"
  proof
    fix c assume "c \<in> set (cur_unprocessed_fields df1 (processed_fields st1))"
    with step(1) have cf: "c \<noteq> f"
      and alt: "c \<in> set (cur_unprocessed_fields df (processed_fields st))
                  \<and> col_depth df1 c = col_depth df c
                \<or> col_depth df1 c < col_depth df f"
      by blast+
    from alt show "col_depth df1 c < B \<or> (c \<in> set fs \<and> col_depth df1 c \<le> B)"
    proof
      assume a: "c \<in> set (cur_unprocessed_fields df (processed_fields st))
                   \<and> col_depth df1 c = col_depth df c"
      with Cons.prems(4) have "col_depth df c < B \<or> (c \<in> set (f # fs) \<and> col_depth df c \<le> B)"
        by blast
      with a cf show ?thesis by auto
    next
      assume "col_depth df1 c < col_depth df f"
      with fB show ?thesis by simp
    qed
  qed
  have kids: "\<forall>item \<in> set nd1. \<forall>Q. \<forall>c \<in> set (cur_unprocessed_fields (snd item) Q).
                col_depth (snd item) c < B"
  proof (intro ballI allI)
    fix item Q c
    assume i: "item \<in> set nd1" and c: "c \<in> set (cur_unprocessed_fields (snd item) Q)"
    from step(3) i have "item \<in> set nd \<or>
            (\<forall>Q. \<forall>c \<in> set (cur_unprocessed_fields (snd item) Q).
                    col_depth (snd item) c < col_depth df f)" by blast
    then show "col_depth (snd item) c < B"
    proof
      assume "item \<in> set nd"
      with Cons.prems(5) c show ?thesis by blast
    next
      assume "\<forall>Q. \<forall>c \<in> set (cur_unprocessed_fields (snd item) Q).
                    col_depth (snd item) c < col_depth df f"
      with c have "col_depth (snd item) c < col_depth df f" by blast
      with fB show ?thesis by simp
    qed
  qed
  show ?case by (rule Cons.IH [OF df sub rest inv kids])
qed

lemma pending_depth_less:
  assumes "\<forall>c \<in> set (cur_unprocessed_fields df P). col_depth df c < B" "0 < B"
  shows "pending_depth df P < B"
proof -
  have "pending_depth df P \<le> B - 1"
    by (rule pending_depth_le) (use assms in fastforce)
  with assms(2) show ?thesis by simp
qed

lemma model_returns:
  assumes ok: "engine_ok eng"
  shows "pending_depth df (processed_fields st) < fuel
         \<Longrightarrow> model_nested_JSON_objects fuel eng cfg df parent_path counter st \<noteq> None"
proof (induction fuel arbitrary: df parent_path counter st)
  case 0
  then show ?case by simp
next
  case (Suc fuel)
  let ?c1 = "counter + 1"
  let ?st1 = "add_log [LogCallStart ?c1 (df_count df) (processed_fields st)] st"
  let ?U = "cur_unprocessed_fields df (processed_fields st)"
  let ?B = "pending_depth df (processed_fields st)"
  show ?case
  proof (cases "?U = [] \<or> ?c1 = max_recursive_calls cfg")
    case True
    then show ?thesis by (auto simp: Let_def)
  next
    case False
    obtain r1 df2 nd st2 where loop:
      "process_fields eng (set_order eng ?U) df [] ?st1 = (r1, df2, nd, st2)"
      by (cases "process_fields eng (set_order eng ?U) df [] ?st1") auto
    show ?thesis
    proof (cases r1)
      case (Some e)
      with False loop show ?thesis by (simp add: Let_def)
    next
      case None
      from False obtain c0 where c0: "c0 \<in> set ?U" by (cases ?U) auto
      have "0 < col_depth df c0" by (simp add: col_depth_def)
      with pending_depth_ge [OF c0] have Bpos: "0 < ?B" by simp
      have d: "distinct (set_order eng ?U)"
        by (simp add: engine_ok_set_order(2) [OF ok] cur_unprocessed_distinct)
      have s: "set (set_order eng ?U) \<subseteq> set (cur_unprocessed_fields df (processed_fields ?st1))"
        by (simp add: engine_ok_set_order(1) [OF ok])
      have inv: "\<forall>c \<in> set (cur_unprocessed_fields df (processed_fields ?st1)).
                   col_depth df c < ?B \<or> (c \<in> set (set_order eng ?U) \<and> col_depth df c \<le> ?B)"
        by (simp add: engine_ok_set_order(1) [OF ok] pending_depth_ge)
      have kids: "\<forall>item \<in> set ([] :: (string \<times> dataframe) list).
                     \<forall>Q. \<forall>c \<in> set (cur_unprocessed_fields (snd item) Q).
                       col_depth (snd item) c < ?B" by simp
      from process_fields_step [OF ok d s loop [unfolded None] inv kids]
      have a: "\<forall>c \<in> set (cur_unprocessed_fields df2 (processed_fields st2)). col_depth df2 c < ?B"
        and b: "\<forall>item \<in> set nd. \<forall>Q. \<forall>c \<in> set (cur_unprocessed_fields (snd item) Q).
                  col_depth (snd item) c < ?B"
        by blast+
      let ?st2' = "st2\<lparr>globals := dict_set (result_key cfg parent_path) df2 (globals st2)\<rparr>"
      have "pending_depth df2 (processed_fields ?st2') < ?B"
        using pending_depth_less [OF a Bpos] by simp
      with Suc.prems have "pending_depth df2 (processed_fields ?st2') < fuel" by simp
      from Suc.IH [OF this, of parent_path ?c1] obtain r3 st3 where
        inner: "model_nested_JSON_objects fuel eng cfg df2 parent_path ?c1 ?st2' = Some (r3, st3)"
        by (cases "model_nested_JSON_objects fuel eng cfg df2 parent_path ?c1 ?st2'") auto
      show ?thesis
      proof (cases r3)
        case (Some e)
        with None False loop inner show ?thesis by (simp add: Let_def)
      next
        case None3: None
        have "for_each_new_df
                (\<lambda>name new_df. model_nested_JSON_objects fuel eng cfg new_df name ?c1) nd st3 \<noteq> None"
        proof (rule for_each_returns)
          fix item :: "string \<times> dataframe" and s :: state
          assume i: "item \<in> set nd"
          with b have "\<forall>c \<in> set (cur_unprocessed_fields (snd item) (processed_fields s)).
                         col_depth (snd item) c < ?B" by blast
          from pending_depth_less [OF this Bpos] Suc.prems
          have "pending_depth (snd item) (processed_fields s) < fuel" by simp
          then show "model_nested_JSON_objects fuel eng cfg (snd item) (fst item) ?c1 s \<noteq> None"
            by (rule Suc.IH)
        qed
        with None None3 False loop inner show ?thesis by (simp add: Let_def)
      qed
    qed
  qed
qed



end
